theory Spec2Isabelle
  imports Complex_Main "HOL-Library.Multiset"
begin

text \<open>
  A shallow embedding of \<open>datasets/base.py\<close> of AirLoop: the catalog of
  \<open>DatasetBase\<close> with \<open>get_env_seqs\<close>, \<open>__getitem__\<close>, \<open>include_exclude\<close> and
  \<open>rand_split\<close>, and the batch list built by \<open>DefaultSampler.__init__\<close>. Python's
  integers are \<open>int\<close>, its exceptions are values of \<open>error\<close>, the ambient and the seeded
  random generators are explicit states, and \<open>rand_split\<close> works on a store of objects.
  The libraries (NumPy's \<open>arange\<close>, \<open>split\<close>, \<open>take\<close>, \<open>shuffle\<close>, slices,
  \<open>itertools\<close>) are modelled by what they compute; the regular expressions and the raw
  random draws are parameters. \<open>rand_split\<close> takes the function that gives a ratio its
  rounded share as a parameter; \<open>np_portion\<close> is that function as line 86 computes it,
  with the floating-point numbers read as exact rationals.
\<close>

section \<open>Data model of \<open>datasets/base.py\<close>\<close>

text \<open>
  The catalog \<open>DatasetBase._seqs\<close> is a Python dict from environment identifiers to
  lists of sequence identifiers. A dict iterates in insertion order, so it is an
  association list; its keys are distinct (\<open>dict_keys_ok\<close>).
\<close>

type_synonym env_id = string
type_synonym seq_id = string
type_synonym catalog = "(env_id \<times> seq_id list) list"
type_synonym triple = "env_id \<times> seq_id \<times> int"

definition dict_keys_ok :: "catalog \<Rightarrow> bool" where
  "dict_keys_ok cat = distinct (map fst cat)"

text \<open>The failures the modelled code can raise.\<close>

datatype assertion =
    NoSuchEnvironment env_id
  | NoSuchSequence env_id seq_id
  | IndexOutOfBound env_id seq_id int

datatype error =
    AssertionError assertion
  | KeyError env_id
  | ValueError
  | ZeroDivisionError
  | IndexError
  | AttributeError
  | TypeError
  | ReError string

text \<open>
  \<open>get_env_seqs\<close>: \<open>[(env, seq) for env in self.envs for seq in self.seqs[env]]\<close>.
\<close>

definition get_env_seqs :: "catalog \<Rightarrow> (env_id \<times> seq_id) list" where
  "get_env_seqs cat = concat (map (\<lambda>(env, seqs). map (Pair env) seqs) cat)"

section \<open>Library functions used by the sampler\<close>

text \<open>
  \<open>np.arange(0, stop, step)\<close> on integers: \<open>ceil(stop / step)\<close> values
  \<open>0, step, 2 * step, ...\<close> (none when that count is not positive); a zero step raises.
\<close>

definition ceil_div :: "int \<Rightarrow> int \<Rightarrow> int" where
  "ceil_div a b = - ((- a) div b)"

definition np_arange :: "int \<Rightarrow> int \<Rightarrow> error + int list" where
  "np_arange stop step =
     (if step = 0 then Inl ZeroDivisionError
      else Inr (map (\<lambda>k. int k * step) [0..<nat (ceil_div stop step)]))"

text \<open>
  Python's slice \<open>xs[a:b]\<close>: a negative bound counts from the end, and both bounds
  are clipped to \<open>0 .. len(xs)\<close>; the slice never raises.
\<close>

definition py_slice :: "'a list \<Rightarrow> int \<Rightarrow> int \<Rightarrow> 'a list" where
  "py_slice xs a b =
     (let n = int (length xs);
          norm = (\<lambda>i. if i < 0 then max 0 (i + n) else min i n);
          lo = norm a;
          hi = norm b
      in take (nat (hi - lo)) (drop (nat lo) xs))"

text \<open>
  The random source. \<open>gen\<close> is the raw generator (one draw and the next state);
  \<open>random_interval gen g m\<close> draws from \<open>0 .. m\<close>. \<open>np.random.shuffle\<close> is the
  Fisher-Yates loop \<open>for i in reversed(range(1, n)): j = random_interval(i);
  x[i], x[j] = x[j], x[i]\<close>.
\<close>

definition random_interval :: "('g \<Rightarrow> nat \<times> 'g) \<Rightarrow> 'g \<Rightarrow> nat \<Rightarrow> nat \<times> 'g" where
  "random_interval gen g m = (case gen g of (r, g') \<Rightarrow> (r mod (Suc m), g'))"

definition swap :: "nat \<Rightarrow> nat \<Rightarrow> 'a list \<Rightarrow> 'a list" where
  "swap i j xs = xs[i := xs ! j, j := xs ! i]"

fun shuffle_from :: "('g \<Rightarrow> nat \<times> 'g) \<Rightarrow> nat \<Rightarrow> 'a list \<Rightarrow> 'g \<Rightarrow> 'a list \<times> 'g" where
  "shuffle_from gen 0 xs g = (xs, g)"
| "shuffle_from gen (Suc i) xs g =
     (case random_interval gen g (Suc i) of
        (j, g') \<Rightarrow> shuffle_from gen i (swap (Suc i) j xs) g')"

definition shuffle :: "('g \<Rightarrow> nat \<times> 'g) \<Rightarrow> 'a list \<Rightarrow> 'g \<Rightarrow> 'a list \<times> 'g" where
  "shuffle gen xs g = shuffle_from gen (length xs - 1) xs g"

text \<open>
  \<open>itertools.groupby(triples, lambda b: b[0])\<close>: maximal runs of consecutive triples
  with the same environment (the keys are dropped by the caller).
\<close>

function groupby_env :: "triple list \<Rightarrow> triple list list" where
  "groupby_env [] = []"
| "groupby_env (t # ts) =
     (t # takeWhile (\<lambda>u. fst u = fst t) ts) # groupby_env (dropWhile (\<lambda>u. fst u = fst t) ts)"
  by pat_completeness auto
termination
  by (relation "measure length") (auto simp: less_Suc_eq_le length_dropWhile_le)

text \<open>
  \<open>itertools.zip_longest(*([iter(xs)] * n))\<close>: chunks of \<open>n\<close> elements, the last one
  padded with \<open>None\<close>; with \<open>n \<le> 0\<close> there is no iterator to zip and nothing is yielded.
\<close>

function zip_longest_chunks :: "nat \<Rightarrow> 'a list \<Rightarrow> 'a option list list" where
  "zip_longest_chunks n xs =
     (if n = 0 \<or> xs = [] then []
      else (map Some (take n xs) @ replicate (n - length xs) None)
           # zip_longest_chunks n (drop n xs))"
  by pat_completeness auto
termination
  by (relation "measure (\<lambda>(n, xs). length xs)") auto

declare zip_longest_chunks.simps [simp del]

section \<open>\<open>DefaultSampler.__init__\<close>\<close>

text \<open>
  Lines 105-107: the batches of one (pair, size) entry.
\<close>

definition seq_batches ::
  "int \<Rightarrow> bool \<Rightarrow> (env_id \<times> seq_id) \<times> int \<Rightarrow> error + triple list list" where
  "seq_batches bs overlap entry =
     (case entry of ((env, seq), sz) \<Rightarrow>
        (let frame_idx = map int [0..<nat sz] in
         case np_arange (sz - bs) (if overlap then 1 else bs) of
           Inl e \<Rightarrow> Inl e
         | Inr b_start \<Rightarrow>
             Inr (map (\<lambda>st. map (\<lambda>idx. (env, seq, idx)) (py_slice frame_idx st (st + bs)))
                   b_start)))"

text \<open>Lines 104-110: the loop over the entries, with the per-sequence shuffle.\<close>

fun batches_loop ::
  "('g \<Rightarrow> nat \<times> 'g) \<Rightarrow> int \<Rightarrow> bool \<Rightarrow> string option \<Rightarrow> ((env_id \<times> seq_id) \<times> int) list \<Rightarrow> 'g
     \<Rightarrow> error + (triple list list \<times> 'g)" where
  "batches_loop gen bs overlap sh [] g = Inr ([], g)"
| "batches_loop gen bs overlap sh (entry # rest) g =
     (case seq_batches bs overlap entry of
        Inl e \<Rightarrow> Inl e
      | Inr batch \<Rightarrow>
          (case (if sh = Some ''batch'' then shuffle gen batch g else (batch, g)) of
             (batch', g') \<Rightarrow>
               (case batches_loop gen bs overlap sh rest g' of
                  Inl e \<Rightarrow> Inl e
                | Inr (more, g'') \<Rightarrow> Inr (batch' @ more, g''))))"

text \<open>Lines 116-120: each environment's triples are shuffled and sliced into chunks.\<close>

fun regroup ::
  "('g \<Rightarrow> nat \<times> 'g) \<Rightarrow> int \<Rightarrow> triple list list \<Rightarrow> 'g \<Rightarrow> triple option list list \<times> 'g" where
  "regroup gen bs [] g = ([], g)"
| "regroup gen bs (grp # rest) g =
     (case shuffle gen grp g of
        (env_batches, g') \<Rightarrow>
          (case regroup gen bs rest g' of
             (more, g'') \<Rightarrow> (zip_longest_chunks (nat bs) env_batches @ more, g'')))"

text \<open>
  The constructor: the dataset's catalog and size function, the batch size, the shuffle
  mode (\<open>None\<close> or a string) and the overlap flag; \<open>g\<close> is the state of the ambient
  random generator. The result is \<open>self.batches\<close> and the generator's new state. An
  entry of a batch is \<open>Some\<close> triple, or \<open>None\<close> where \<open>zip_longest\<close> padded.
\<close>

definition DefaultSampler ::
  "('g \<Rightarrow> nat \<times> 'g) \<Rightarrow> catalog \<Rightarrow> (env_id \<Rightarrow> seq_id \<Rightarrow> int) \<Rightarrow> int \<Rightarrow> string option \<Rightarrow> bool \<Rightarrow> 'g
     \<Rightarrow> error + (triple option list list \<times> 'g)" where
  "DefaultSampler gen cat get_size batch_size sh overlap g =
     (case (if sh = Some ''seq''
            then shuffle gen (map (\<lambda>es. (es, get_size (fst es) (snd es))) (get_env_seqs cat)) g
            else (map (\<lambda>es. (es, get_size (fst es) (snd es))) (get_env_seqs cat), g)) of
        (seq_sizes, g1) \<Rightarrow>
          (case batches_loop gen batch_size overlap sh seq_sizes g1 of
             Inl e \<Rightarrow> Inl e
           | Inr (batches, g2) \<Rightarrow>
               (case (if sh = Some ''env'' \<or> sh = Some ''all''
                      then regroup gen batch_size (groupby_env (concat batches)) g2
                      else (map (map Some) batches, g2)) of
                  (batches', g3) \<Rightarrow>
                    Inr (if sh = Some ''all'' then shuffle gen batches' g3 else (batches', g3)))))"

section \<open>\<open>DatasetBase\<close>: filtering\<close>

text \<open>
  \<open>get_seq_id\<close>: \<open>'_'.join([env, seq])\<close> for string identifiers.
\<close>

definition get_seq_id :: "env_id \<Rightarrow> seq_id \<Rightarrow> string" where
  "get_seq_id env seq = env @ ''_'' @ seq"

text \<open>
  The regular expression library is a parameter: \<open>re_compile\<close> returns \<open>None\<close> where
  \<open>re.compile\<close> raises, and \<open>re_search p s\<close> tells whether \<open>p.search(s)\<close> is not
  \<open>None\<close>. \<open>compile_opt\<close> is \<open>re.compile(x) if x is not None else None\<close>.
\<close>

definition compile_opt :: "(string \<Rightarrow> 'p option) \<Rightarrow> string option \<Rightarrow> error + 'p option" where
  "compile_opt re_compile pat =
     (case pat of
        None \<Rightarrow> Inr None
      | Some x \<Rightarrow> (case re_compile x of None \<Rightarrow> Inl (ReError x) | Some p \<Rightarrow> Inr (Some p)))"

text \<open>The condition of line 77-78, under which a pair is removed.\<close>

definition rejected :: "('p \<Rightarrow> string \<Rightarrow> bool) \<Rightarrow> 'p option \<Rightarrow> 'p option \<Rightarrow> string \<Rightarrow> bool" where
  "rejected re_search incl_pattern excl_pattern seq_id =
     ((case incl_pattern of None \<Rightarrow> False | Some p \<Rightarrow> \<not> re_search p seq_id) \<or>
      (case excl_pattern of None \<Rightarrow> False | Some p \<Rightarrow> re_search p seq_id))"

text \<open>
  Lines 79-81: \<open>self.seqs[env].remove(seq)\<close> removes the first occurrence (the lookup
  raises KeyError, the removal ValueError), and an environment left with an empty list is
  popped. The list is changed in place, so the entry keeps its position in the dict.
\<close>

definition list_remove :: "'a \<Rightarrow> 'a list \<Rightarrow> error + 'a list" where
  "list_remove x xs = (if x \<in> set xs then Inr (remove1 x xs) else Inl ValueError)"

definition dict_set :: "catalog \<Rightarrow> env_id \<Rightarrow> seq_id list \<Rightarrow> catalog" where
  "dict_set cat env seqs = map (\<lambda>(k, v). if k = env then (k, seqs) else (k, v)) cat"

definition dict_pop :: "catalog \<Rightarrow> env_id \<Rightarrow> catalog" where
  "dict_pop cat env = filter (\<lambda>(k, v). k \<noteq> env) cat"

definition remove_seq :: "catalog \<Rightarrow> env_id \<Rightarrow> seq_id \<Rightarrow> error + catalog" where
  "remove_seq cat env seq =
     (case map_of cat env of
        None \<Rightarrow> Inl (KeyError env)
      | Some seqs \<Rightarrow>
          (case list_remove seq seqs of
             Inl e \<Rightarrow> Inl e
           | Inr seqs' \<Rightarrow> Inr (if seqs' = [] then dict_pop cat env else dict_set cat env seqs')))"

text \<open>The loop of lines 75-81 over the list \<open>self.get_env_seqs()\<close> taken before it starts.\<close>

fun include_exclude_loop ::
  "('p \<Rightarrow> string \<Rightarrow> bool) \<Rightarrow> 'p option \<Rightarrow> 'p option \<Rightarrow> (env_id \<times> seq_id) list \<Rightarrow> catalog
     \<Rightarrow> error + catalog" where
  "include_exclude_loop re_search incl excl [] cat = Inr cat"
| "include_exclude_loop re_search incl excl ((env, seq) # rest) cat =
     (if rejected re_search incl excl (get_seq_id env seq)
      then (case remove_seq cat env seq of
              Inl e \<Rightarrow> Inl e
            | Inr cat' \<Rightarrow> include_exclude_loop re_search incl excl rest cat')
      else include_exclude_loop re_search incl excl rest cat)"

definition include_exclude ::
  "(string \<Rightarrow> 'p option) \<Rightarrow> ('p \<Rightarrow> string \<Rightarrow> bool) \<Rightarrow> string option \<Rightarrow> string option \<Rightarrow> catalog
     \<Rightarrow> error + catalog" where
  "include_exclude re_compile re_search include exclude cat =
     (case compile_opt re_compile include of
        Inl e \<Rightarrow> Inl e
      | Inr incl_pattern \<Rightarrow>
          (case compile_opt re_compile exclude of
             Inl e \<Rightarrow> Inl e
           | Inr excl_pattern \<Rightarrow>
               include_exclude_loop re_search incl_pattern excl_pattern (get_env_seqs cat) cat))"

text \<open>
  What the specification calls matching: the pattern compiles and is found in the key.
  \<open>catalog_pruned\<close> is the invariant of the data model: no environment maps to an empty
  list.
\<close>

definition re_matches :: "(string \<Rightarrow> 'p option) \<Rightarrow> ('p \<Rightarrow> string \<Rightarrow> bool) \<Rightarrow> string \<Rightarrow> string \<Rightarrow> bool" where
  "re_matches re_compile re_search pat s =
     (case re_compile pat of None \<Rightarrow> False | Some p \<Rightarrow> re_search p s)"

definition survives ::
  "(string \<Rightarrow> 'p option) \<Rightarrow> ('p \<Rightarrow> string \<Rightarrow> bool) \<Rightarrow> string option \<Rightarrow> string option
     \<Rightarrow> env_id \<times> seq_id \<Rightarrow> bool" where
  "survives re_compile re_search include exclude pair =
     ((case include of None \<Rightarrow> True
       | Some pat \<Rightarrow> re_matches re_compile re_search pat (get_seq_id (fst pair) (snd pair))) \<and>
      (case exclude of None \<Rightarrow> True
       | Some pat \<Rightarrow> \<not> re_matches re_compile re_search pat (get_seq_id (fst pair) (snd pair))))"

definition catalog_pruned :: "catalog \<Rightarrow> bool" where
  "catalog_pruned cat = list_all (\<lambda>(env, seqs). seqs \<noteq> []) cat"

section \<open>\<open>DatasetBase.__getitem__\<close>\<close>

text \<open>
  Python values as far as \<open>__getitem__\<close> looks at them: a tuple, a string, an integer,
  or anything else. The hooks \<open>get_size\<close> and \<open>getitem_impl\<close> are parameters; the calls
  made to them are recorded in order, so that "the hook is not invoked" is a statement
  about the result.
\<close>

datatype 'a pyval = PyTuple "'a pyval list" | PyStr string | PyInt int | PyOther 'a

datatype call = GetSize env_id seq_id | GetItemImpl env_id seq_id int

definition as_tuple :: "'a pyval \<Rightarrow> 'a pyval list" where
  "as_tuple item = (case item of PyTuple xs \<Rightarrow> xs | _ \<Rightarrow> [item])"

definition getitem ::
  "catalog \<Rightarrow> (env_id \<Rightarrow> seq_id \<Rightarrow> int) \<Rightarrow> (env_id \<Rightarrow> seq_id \<Rightarrow> int \<Rightarrow> 'a pyval) \<Rightarrow> triple
     \<Rightarrow> (error + 'a pyval) \<times> call list" where
  "getitem cat get_size getitem_impl index =
     (case index of (env, seq, idx) \<Rightarrow>
        (case map_of cat env of
           None \<Rightarrow> (Inl (AssertionError (NoSuchEnvironment env)), [])
         | Some seqs \<Rightarrow>
             if seq \<notin> set seqs then (Inl (AssertionError (NoSuchSequence env seq)), [])
             else if \<not> 0 \<le> idx then (Inl (AssertionError (IndexOutOfBound env seq idx)), [])
             else if \<not> idx < get_size env seq
               then (Inl (AssertionError (IndexOutOfBound env seq idx)), [GetSize env seq])
             else (Inr (PyTuple (as_tuple (getitem_impl env seq idx)
                                 @ [PyTuple [PyStr env, PyStr seq, PyInt idx]])),
                   [GetSize env seq, GetItemImpl env seq idx])))"

section \<open>\<open>DatasetBase.rand_split\<close>\<close>

text \<open>
  Line 86. The expression \<open>np.round(ratio / sum(ratio) * total)\<close>, cast to integers by
  \<open>cumsum(..., dtype=np.int)\<close>, gives every ratio \<open>r\<close> its rounded share;
  \<open>rand_split\<close> takes this function as the parameter \<open>portion ratio n r\<close> (\<open>n\<close> the
  total). The cumulative sum and the slice \<open>[:-1]\<close> are modelled.
\<close>

fun cumsum_from :: "int \<Rightarrow> int list \<Rightarrow> int list" where
  "cumsum_from acc [] = []"
| "cumsum_from acc (x # xs) = (acc + x) # cumsum_from (acc + x) xs"

definition split_points :: "('q list \<Rightarrow> nat \<Rightarrow> 'q \<Rightarrow> int) \<Rightarrow> 'q list \<Rightarrow> nat \<Rightarrow> int list" where
  "split_points portion ratio n = butlast (cumsum_from 0 (map (portion ratio n) ratio))"



text \<open>
  \<open>np.split(ary, indices)\<close>: the sub-arrays \<open>ary[d[i]:d[i+1]]\<close> for the division points
  \<open>d = [0] + indices + [len(ary)]\<close>, one more than there are indices.
\<close>

definition np_split :: "'a list \<Rightarrow> int list \<Rightarrow> 'a list list" where
  "np_split ary indices =
     map (\<lambda>(st, en). py_slice ary st en) (zip (0 # indices) (indices @ [int (length ary)]))"

text \<open>
  \<open>np.random.default_rng(seed).permutation(n)\<close> shuffles \<open>arange(n)\<close> with a generator
  created from the seed (\<open>default_rng\<close>, a parameter) and nothing else.
\<close>

definition permutation :: "('g \<Rightarrow> nat \<times> 'g) \<Rightarrow> 'g \<Rightarrow> nat \<Rightarrow> nat list" where
  "permutation gen g n = fst (shuffle gen [0..<n] g)"

text \<open>\<open>np.take(xs, idxs, axis=0)\<close> raises on an index out of range.\<close>

definition np_take :: "'a list \<Rightarrow> nat list \<Rightarrow> error + 'a list" where
  "np_take xs idxs =
     (if list_all (\<lambda>i. i < length xs) idxs then Inr (map (\<lambda>i. xs ! i) idxs) else Inl IndexError)"

text \<open>Line 93: \<open>subset.seqs.setdefault(env, []).append(seq)\<close>, and the loop of line 92.\<close>

fun setdefault_append :: "catalog \<Rightarrow> env_id \<times> seq_id \<Rightarrow> catalog" where
  "setdefault_append [] (env, seq) = [(env, [seq])]"
| "setdefault_append ((k, v) # rest) (env, seq) =
     (if k = env then (k, v @ [seq]) # rest else (k, v) # setdefault_append rest (env, seq))"

definition build_seqs :: "(env_id \<times> seq_id) list \<Rightarrow> catalog" where
  "build_seqs pairs = foldl setdefault_append [] pairs"

text \<open>Lines 89 and 92-93: the catalog mapping built for one slice of the permutation.\<close>

definition subset_seqs :: "(env_id \<times> seq_id) list \<Rightarrow> nat list \<Rightarrow> error + catalog" where
  "subset_seqs env_seqs perm =
     (case np_take env_seqs (sort perm) of
        Inl e \<Rightarrow> Inl e
      | Inr pairs \<Rightarrow> Inr (build_seqs pairs))"

text \<open>
  Objects live in a store: an address is an index, and an allocation appends. A dataset
  is an instance whose \<open>__dict__\<close> maps attribute names to addresses; its \<open>_seqs\<close>
  attribute is the address of a dict object holding the catalog. Everything else
  (\<open>path_prefix\<close>, what a concrete dataset adds) is an opaque object.
\<close>

type_synonym ref = nat

datatype 'v obj =
    Instance "(string \<times> ref) list"
  | Mapping catalog
  | Opaque 'v

type_synonym 'v heap = "'v obj list"

definition deref :: "'v heap \<Rightarrow> ref \<Rightarrow> 'v obj option" where
  "deref h r = (if r < length h then Some (h ! r) else None)"

definition alloc :: "'v heap \<Rightarrow> 'v obj \<Rightarrow> ref \<times> 'v heap" where
  "alloc h v = (length h, h @ [v])"

definition setattr :: "(string \<times> ref) list \<Rightarrow> string \<Rightarrow> ref \<Rightarrow> (string \<times> ref) list" where
  "setattr attrs a r =
     (if a \<in> set (map fst attrs)
      then map (\<lambda>(k, v). if k = a then (k, r) else (k, v)) attrs
      else attrs @ [(a, r)])"

text \<open>\<open>self.seqs\<close>: the catalog held by the dict object that \<open>self._seqs\<close> refers to.\<close>

definition seqs_of :: "'v heap \<Rightarrow> ref \<Rightarrow> error + catalog" where
  "seqs_of h self =
     (case deref h self of
        Some (Instance attrs) \<Rightarrow>
          (case map_of attrs ''_seqs'' of
             None \<Rightarrow> Inl AttributeError
           | Some m \<Rightarrow> (case deref h m of Some (Mapping cat) \<Rightarrow> Inr cat | _ \<Rightarrow> Inl TypeError))
      | _ \<Rightarrow> Inl AttributeError)"

text \<open>
  Lines 90-93: \<open>subset = copy(self)\<close> allocates an instance with the same \<open>__dict__\<close>
  entries, \<open>subset._seqs = {}\<close> allocates a dict and stores its address in the copy, and
  the loop fills that dict.
\<close>

definition make_subset :: "'v heap \<Rightarrow> (string \<times> ref) list \<Rightarrow> catalog \<Rightarrow> ref \<times> 'v heap" where
  "make_subset h self_attrs seqs =
     (case alloc h (Instance self_attrs) of
        (sub, h1) \<Rightarrow>
          (case alloc h1 (Mapping []) of
             (m, h2) \<Rightarrow>
               (sub, (h2[sub := Instance (setattr self_attrs ''_seqs'' m)])[m := Mapping seqs])))"

fun subsets_loop ::
  "'v heap \<Rightarrow> (string \<times> ref) list \<Rightarrow> (env_id \<times> seq_id) list \<Rightarrow> nat list list
     \<Rightarrow> error + (ref list \<times> 'v heap)" where
  "subsets_loop h self_attrs env_seqs [] = Inr ([], h)"
| "subsets_loop h self_attrs env_seqs (perm # rest) =
     (case subset_seqs env_seqs perm of
        Inl e \<Rightarrow> Inl e
      | Inr seqs \<Rightarrow>
          (case make_subset h self_attrs seqs of
             (sub, h') \<Rightarrow>
               (case subsets_loop h' self_attrs env_seqs rest of
                  Inl e \<Rightarrow> Inl e
                | Inr (subsets, h'') \<Rightarrow> Inr (sub # subsets, h''))))"

definition rand_split ::
  "('g \<Rightarrow> nat \<times> 'g) \<Rightarrow> (int \<Rightarrow> 'g) \<Rightarrow> ('q list \<Rightarrow> nat \<Rightarrow> 'q \<Rightarrow> int) \<Rightarrow> 'q list \<Rightarrow> int
     \<Rightarrow> 'v heap \<Rightarrow> ref \<Rightarrow> error + (ref list \<times> 'v heap)" where
  "rand_split gen default_rng portion ratio seed h self =
     (case seqs_of h self of
        Inl e \<Rightarrow> Inl e
      | Inr cat \<Rightarrow>
          (case deref h self of
             Some (Instance self_attrs) \<Rightarrow>
               subsets_loop h self_attrs (get_env_seqs cat)
                 (np_split (permutation gen (default_rng seed) (length (get_env_seqs cat)))
                    (split_points portion ratio (length (get_env_seqs cat))))
           | _ \<Rightarrow> Inl AttributeError))"

text \<open>
  The scenario of the specification: catalog \<open>{"envA": ["s1", "s2"], "envB": ["s3"]}\<close>
  with sizes \<open>s1 = 5\<close>, \<open>s2 = 3\<close>, \<open>s3 = 10\<close>.
\<close>

definition scenario_catalog :: catalog where
  "scenario_catalog = [(''envA'', [''s1'', ''s2'']), (''envB'', [''s3''])]"

definition scenario_size :: "env_id \<Rightarrow> seq_id \<Rightarrow> int" where
  "scenario_size env seq = (if seq = ''s1'' then 5 else if seq = ''s2'' then 3 else 10)"

text \<open>
  A store holding one dataset over the scenario's catalog: the instance at address 0 with
  its \<open>path_prefix\<close> at address 1 and its catalog dict at address 2.
\<close>

definition scenario_heap :: "unit obj list" where
  "scenario_heap =
     [Instance [(''path_prefix'', 1), (''_seqs'', 2)], Opaque (), Mapping scenario_catalog]"



text \<open>A generator that always draws \<open>0\<close>, for evaluating concrete runs.\<close>

definition gen_zero :: "nat \<Rightarrow> nat \<times> nat" where
  "gen_zero g = (0, g)"

section \<open>Lemmas about the sampler\<close>

lemma ceil_div_tiling:
  fixes B S :: int
  assumes "0 < B"
  shows "- ((- (S - B)) div B) = (S - 1) div B"
proof -
  define q where "q = (S - 1) div B"
  define r where "r = (S - 1) mod B"
  have r: "0 \<le> r" "r < B" using assms by (simp_all add: r_def)
  have S: "S - 1 = q * B + r" by (simp add: q_def r_def)
  have "- (S - B) = (B - 1 - r) + (- q) * B" using S by (simp add: algebra_simps)
  then have "(- (S - B)) div B = (B - 1 - r) div B + (- q)"
    using assms by (simp only: div_mult_self1 div_mult_self2 div_mult_self3 div_mult_self4)
  also have "(B - 1 - r) div B = 0" using r by (simp add: div_pos_pos_trivial)
  finally show ?thesis by (simp add: q_def)
qed

lemma py_slice_upt:
  "0 \<le> a \<Longrightarrow> a \<le> b \<Longrightarrow> b \<le> int n \<Longrightarrow>
   py_slice (map int [0..<n]) a b = map (\<lambda>i. a + int i) [0..<nat (b - a)]"
  apply (simp add: py_slice_def Let_def min_def drop_map take_map)
  apply (simp add: list_eq_iff_nth_eq)
  done

lemma np_arange_tiling:
  "0 < B \<Longrightarrow> np_arange (S - B) B = Inr (map (\<lambda>k. int k * B) [0..<nat ((S - 1) div B)])"
  by (simp add: np_arange_def ceil_div_def ceil_div_tiling del: minus_diff_eq)

lemma tiling_bound:
  fixes B S :: int
  assumes "0 < B" "k < nat ((S - 1) div B)"
  shows "int k * B + B \<le> int (nat S)"
proof -
  have "int k + 1 \<le> (S - 1) div B" using assms by linarith
  then have "(int k + 1) * B \<le> ((S - 1) div B) * B"
    using assms(1) by (simp add: mult_right_mono)
  also have "\<dots> \<le> S - 1"
    using assms(1) by (metis mult.commute pos_mod_sign mult_div_mod_eq add.commute le_add_same_cancel2 )
  finally show ?thesis by (simp add: algebra_simps)
qed

lemma seq_batches_tiling:
  assumes "0 < B"
  shows "seq_batches B False ((e, s), S) =
         Inr (map (\<lambda>k. map (\<lambda>i. (e, s, int k * B + int i)) [0..<nat B])
                  [0..<nat ((S - 1) div B)])"
proof -
  have "py_slice (map int [0..<nat S]) (int k * B) (int k * B + B)
        = map (\<lambda>i. int k * B + int i) [0..<nat B]" if "k < nat ((S - 1) div B)" for k
    using py_slice_upt [of "int k * B" "int k * B + B" "nat S"] tiling_bound [OF assms that] assms
    by simp
  then show ?thesis
    using assms by (simp add: seq_batches_def np_arange_tiling comp_def)
qed

lemma seq_batches_overlap:
  assumes "0 \<le> B"
  shows "seq_batches B True ((e, s), S) =
         Inr (map (\<lambda>k. map (\<lambda>i. (e, s, int k + int i)) [0..<nat B]) [0..<nat (S - B)])"
proof -
  have "py_slice (map int [0..<nat S]) (int k) (int k + B)
        = map (\<lambda>i. int k + int i) [0..<nat B]" if "k < nat (S - B)" for k
  proof -
    have "int k + B \<le> int (nat S)" using that by linarith
    then show ?thesis
      using py_slice_upt [of "int k" "int k + B" "nat S"] assms by simp
  qed
  then show ?thesis
    using assms by (simp add: seq_batches_def np_arange_def ceil_div_def comp_def)
qed

lemma batches_loop_plain:
  assumes "sh \<noteq> Some ''batch''" "\<And>x. x \<in> set entries \<Longrightarrow> seq_batches bs ov x = Inr (f x)"
  shows "batches_loop gen bs ov sh entries g = Inr (concat (map f entries), g)"
  using assms by (induction entries) simp_all


lemma sampler_plain:
  assumes "sh \<noteq> Some ''batch''" "sh \<noteq> Some ''seq''" "sh \<noteq> Some ''env''" "sh \<noteq> Some ''all''"
    and "\<And>e s. seq_batches bs ov ((e, s), get_size e s) = Inr (f e s)"
  shows "DefaultSampler gen cat get_size bs sh ov g =
         Inr (concat (map (\<lambda>(e, s). map (map Some) (f e s)) (get_env_seqs cat)), g)"
proof -
  have "batches_loop gen bs ov sh (map (\<lambda>es. (es, get_size (fst es) (snd es))) (get_env_seqs cat)) g
        = Inr (concat (map (\<lambda>x. f (fst (fst x)) (snd (fst x)))
             (map (\<lambda>es. (es, get_size (fst es) (snd es))) (get_env_seqs cat))), g)"
    by (rule batches_loop_plain) (use assms in auto)
  then show ?thesis
    using assms(1-4) by (simp add: DefaultSampler_def comp_def map_concat case_prod_unfold)
qed

lemma swap_mset: "i < length xs \<Longrightarrow> j < length xs \<Longrightarrow> mset (swap i j xs) = mset xs"
  by (simp add: swap_def mset_swap)

lemma swap_length: "length (swap i j xs) = length xs"
  by (simp add: swap_def)

lemma random_interval_le: "random_interval gen g m = (j, g') \<Longrightarrow> j \<le> m"
  by (auto simp: random_interval_def split: prod.splits simp: less_Suc_eq_le [symmetric])

lemma shuffle_from_mset:
  "i < length xs \<Longrightarrow> mset (fst (shuffle_from gen i xs g)) = mset xs"
proof (induction i arbitrary: xs g)
  case 0
  then show ?case by simp
next
  case (Suc i)
  obtain j g' where r: "random_interval gen g (Suc i) = (j, g')" by (cases "random_interval gen g (Suc i)")
  then have "j \<le> Suc i" by (rule random_interval_le)
  with Suc.prems have "mset (swap (Suc i) j xs) = mset xs" by (simp add: swap_mset)
  moreover have "i < length (swap (Suc i) j xs)" using Suc.prems by (simp add: swap_length)
  ultimately show ?case using Suc.IH [of "swap (Suc i) j xs" g'] r by simp
qed

lemma shuffle_mset: "mset (fst (shuffle gen xs g)) = mset xs"
  by (cases xs) (simp_all add: shuffle_def shuffle_from_mset)

lemma shuffle_set: "shuffle gen xs g = (ys, g') \<Longrightarrow> set ys = set xs"
  using shuffle_mset [of gen xs g] by (auto dest: mset_eq_setD)

lemma shuffle_mset': "shuffle gen xs g = (ys, g') \<Longrightarrow> mset ys = mset xs"
  using shuffle_mset [of gen xs g] by simp

lemma mset_concat_map_cong:
  assumes "mset xs = mset ys"
  shows "mset (concat (map f xs)) = mset (concat (map f ys))"
proof -
  have "mset (concat (map f zs)) = sum_mset (image_mset (\<lambda>z. mset (f z)) (mset zs))" for zs
    by (induction zs) simp_all
  then show ?thesis using assms by simp
qed

lemma batches_loop_mset:
  assumes "\<And>x. x \<in> set entries \<Longrightarrow> seq_batches bs ov x = Inr (f x)"
  shows "\<exists>bl g'. batches_loop gen bs ov sh entries g = Inr (bl, g')
           \<and> mset bl = mset (concat (map f entries))"
  using assms
proof (induction entries arbitrary: g)
  case Nil
  then show ?case by simp
next
  case (Cons x entries)
  obtain b g1 where b: "(if sh = Some ''batch'' then shuffle gen (f x) g else (f x, g)) = (b, g1)"
    by (cases "(if sh = Some ''batch'' then shuffle gen (f x) g else (f x, g))")
  then have mb: "mset b = mset (f x)" by (auto split: if_splits dest: shuffle_mset')
  from Cons.IH [of g1] Cons.prems obtain bl g' where
    "batches_loop gen bs ov sh entries g1 = Inr (bl, g')" "mset bl = mset (concat (map f entries))"
    by auto
  then show ?case using b mb Cons.prems by simp
qed

lemma ceil_div_pred:
  fixes B S :: int
  assumes "0 < B"
  shows "(S - 1) div B = ceil_div S B - 1"
proof -
  have "- (S - B) = - S + B" by simp
  then have "(- (S - B)) div B = (- S) div B + 1"
    using assms by (simp only: div_add_self2)
  then show ?thesis using ceil_div_tiling [OF assms, of S] by (simp add: ceil_div_def)
qed

lemma concat_chunks:
  "concat (map (\<lambda>k. map (\<lambda>i. h (int k * B + int i)) [0..<nat B]) [0..<n])
   = map (\<lambda>i. h (int i)) [0..<n * nat B]"
proof (cases "0 \<le> B")
  case False
  then show ?thesis by simp
next
  case True
  show ?thesis
  proof (induction n)
    case 0
    then show ?case by simp
  next
    case (Suc n)
    have "[0..<n * nat B + nat B] = [0..<n * nat B] @ [n * nat B..<n * nat B + nat B]"
      by (rule upt_add_eq_append) simp
    moreover have "map (\<lambda>i. i + n * nat B) [0..<nat B] = [n * nat B..<nat B + n * nat B]"
      by (rule map_add_upt)
    ultimately have "[0..<Suc n * nat B] = [0..<n * nat B] @ map (\<lambda>i. i + n * nat B) [0..<nat B]"
      by (simp only: mult_Suc add.commute)
    then have e1: "map (\<lambda>i. h (int i)) [0..<Suc n * nat B]
        = map (\<lambda>i. h (int i)) [0..<n * nat B] @ map (\<lambda>i. h (int (i + n * nat B))) [0..<nat B]"
      by (simp only: map_append map_map comp_def)
    have e2: "int (i + n * nat B) = int n * B + int i" for i
      using True by simp
    have e3: "concat (map (\<lambda>k. map (\<lambda>i. h (int k * B + int i)) [0..<nat B]) [0..<Suc n])
        = concat (map (\<lambda>k. map (\<lambda>i. h (int k * B + int i)) [0..<nat B]) [0..<n])
          @ map (\<lambda>i. h (int n * B + int i)) [0..<nat B]"
      by simp
    show ?case unfolding e1 e2 e3 Suc.IH ..
  qed
qed

lemma seq_batches_pair:
  assumes "seq_batches bs ov ((e, s), sz) = Inr bb" "b \<in> set bb" "t \<in> set b"
  shows "\<exists>i. t = (e, s, i)"
  using assms by (auto simp: seq_batches_def Let_def split: sum.splits)

lemma batches_loop_sound:
  assumes "batches_loop gen bs ov sh entries g = Inr (bl, g')" "b \<in> set bl"
  shows "\<exists>x \<in> set entries. \<exists>bb. seq_batches bs ov x = Inr bb \<and> b \<in> set bb"
  using assms
proof (induction entries arbitrary: g bl)
  case Nil
  then show ?case by simp
next
  case (Cons x entries)
  from Cons.prems(1) obtain batch where sb: "seq_batches bs ov x = Inr batch"
    by (auto split: sum.splits)
  obtain batch' g1 where sh: "(if sh = Some ''batch'' then shuffle gen batch g else (batch, g)) = (batch', g1)"
    by (cases "(if sh = Some ''batch'' then shuffle gen batch g else (batch, g))")
  then have sset: "set batch' = set batch" by (auto split: if_splits dest: shuffle_set)
  from Cons.prems(1) sb sh obtain more where
    rest: "batches_loop gen bs ov sh entries g1 = Inr (more, g')" and bl: "bl = batch' @ more"
    by (auto split: sum.splits)
  from Cons.prems(2) bl have "b \<in> set batch \<or> b \<in> set more" using sset by auto
  then show ?case
  proof
    assume "b \<in> set batch"
    with sb show ?thesis by auto
  next
    assume "b \<in> set more"
    from Cons.IH [OF rest this] show ?thesis by auto
  qed
qed

lemma groupby_env_sound:
  "grp \<in> set (groupby_env ts) \<Longrightarrow>
     set grp \<subseteq> set ts \<and> (\<forall>u \<in> set grp. \<forall>v \<in> set grp. fst u = fst v)"
proof (induction ts rule: groupby_env.induct)
  case 1
  then show ?case by simp
next
  case (2 t ts)
  from "2.prems" have "grp = t # takeWhile (\<lambda>u. fst u = fst t) ts
      \<or> grp \<in> set (groupby_env (dropWhile (\<lambda>u. fst u = fst t) ts))" by simp
  then show ?case
  proof
    assume g: "grp = t # takeWhile (\<lambda>u. fst u = fst t) ts"
    have tw: "fst u = fst t \<and> u \<in> set ts" if "u \<in> set (takeWhile (\<lambda>u. fst u = fst t) ts)" for u
      using set_takeWhileD [OF that] by blast
    have s: "set grp = insert t (set (takeWhile (\<lambda>u. fst u = fst t) ts))"
      by (simp only: g list.set)
    have "set grp \<subseteq> insert t (set ts)"
      unfolding s using tw by blast
    moreover have "\<forall>u \<in> set grp. fst u = fst t"
      unfolding s using tw by blast
    ultimately show ?thesis by (simp only: list.set) metis
  next
    assume "grp \<in> set (groupby_env (dropWhile (\<lambda>u. fst u = fst t) ts))"
    from "2.IH" [OF this]
    have a: "set grp \<subseteq> set (dropWhile (\<lambda>u. fst u = fst t) ts)"
      and b: "\<forall>u \<in> set grp. \<forall>v \<in> set grp. fst u = fst v" by blast+
    have "set (dropWhile (\<lambda>u. fst u = fst t) ts) \<subseteq> set ts"
      by (rule set_dropWhileD [THEN subsetI])
    with a have "set grp \<subseteq> set (t # ts)" by (simp only: list.set) blast
    with b show ?thesis by blast
  qed
qed

lemma zip_longest_chunks_sound:
  "b \<in> set (zip_longest_chunks n xs) \<Longrightarrow> Some t \<in> set b \<Longrightarrow> t \<in> set xs"
proof (induction n xs rule: zip_longest_chunks.induct)
  case (1 n xs)
  show ?case
  proof (cases "n = 0 \<or> xs = []")
    case True
    with "1.prems"(1) have "b \<in> set []"
      by (subst (asm) zip_longest_chunks.simps) simp
    then show ?thesis by simp
  next
    case False
    with "1.prems"(1) have "b = map Some (take n xs) @ replicate (n - length xs) None
        \<or> b \<in> set (zip_longest_chunks n (drop n xs))"
      by (subst (asm) zip_longest_chunks.simps) simp
    then show ?thesis
    proof
      assume "b = map Some (take n xs) @ replicate (n - length xs) None"
      with "1.prems"(2) show ?thesis by (auto dest: in_set_takeD)
    next
      assume "b \<in> set (zip_longest_chunks n (drop n xs))"
      from "1.IH" [OF False this "1.prems"(2)] show ?thesis by (auto dest: in_set_dropD)
    qed
  qed
qed

lemma regroup_sound:
  assumes "regroup gen bs groups g = (bl, g')" "b \<in> set bl"
  shows "\<exists>grp \<in> set groups. \<forall>t. Some t \<in> set b \<longrightarrow> t \<in> set grp"
  using assms
proof (induction groups arbitrary: g bl)
  case Nil
  then show ?case by simp
next
  case (Cons grp groups)
  obtain eb g1 where sh: "shuffle gen grp g = (eb, g1)" by (cases "shuffle gen grp g")
  obtain more g2 where rest: "regroup gen bs groups g1 = (more, g2)" by (cases "regroup gen bs groups g1")
  from Cons.prems(1) sh rest have bl: "bl = zip_longest_chunks (nat bs) eb @ more" and g2: "g2 = g'"
    by simp_all
  from sh have eset: "set eb = set grp" by (rule shuffle_set)
  from Cons.prems(2) bl have "b \<in> set (zip_longest_chunks (nat bs) eb) \<or> b \<in> set more" by auto
  then show ?case
  proof
    assume "b \<in> set (zip_longest_chunks (nat bs) eb)"
    then have "\<forall>t. Some t \<in> set b \<longrightarrow> t \<in> set grp"
      using eset by (auto dest: zip_longest_chunks_sound)
    then show ?thesis by auto
  next
    assume "b \<in> set more"
    from Cons.IH [OF rest [unfolded g2] this] show ?thesis by auto
  qed
qed

lemma sampler_unfold:
  assumes "DefaultSampler gen cat get_size bs sh ov g = Inr (batches, g')"
  shows "\<exists>seq_sizes g1 bl g2.
    mset seq_sizes = mset (map (\<lambda>es. (es, get_size (fst es) (snd es))) (get_env_seqs cat))
    \<and> batches_loop gen bs ov sh seq_sizes g1 = Inr (bl, g2)
    \<and> (sh \<noteq> Some ''env'' \<and> sh \<noteq> Some ''all'' \<longrightarrow> batches = map (map Some) bl \<and> g' = g2)
    \<and> (sh = Some ''env'' \<or> sh = Some ''all'' \<longrightarrow>
       set batches = set (fst (regroup gen bs (groupby_env (concat bl)) g2)))"
proof -
  define entries where "entries = map (\<lambda>es. (es, get_size (fst es) (snd es))) (get_env_seqs cat)"
  define envall where "envall \<longleftrightarrow> sh = Some ''env'' \<or> sh = Some ''all''"
  obtain seq_sizes g1 where
    ss: "(if sh = Some ''seq'' then shuffle gen entries g else (entries, g)) = (seq_sizes, g1)"
    by (cases "(if sh = Some ''seq'' then shuffle gen entries g else (entries, g))")
  have "mset seq_sizes = mset entries"
  proof (cases "sh = Some ''seq''")
    case True
    with ss have "shuffle gen entries g = (seq_sizes, g1)" by (simp only: if_True simp_thms)
    then show ?thesis by (rule shuffle_mset')
  next
    case False
    with ss have "(entries, g) = (seq_sizes, g1)" by (simp only: if_False simp_thms)
    then show ?thesis by simp
  qed
  then have s1: "mset seq_sizes = mset (map (\<lambda>es. (es, get_size (fst es) (snd es))) (get_env_seqs cat))"
    by (simp only: entries_def)
  have unf: "DefaultSampler gen cat get_size bs sh ov g =
     (case batches_loop gen bs ov sh seq_sizes g1 of
             Inl e \<Rightarrow> Inl e
           | Inr (batches, g2) \<Rightarrow>
               (case (if envall
                      then regroup gen bs (groupby_env (concat batches)) g2
                      else (map (map Some) batches, g2)) of
                  (batches', g3) \<Rightarrow>
                    Inr (if sh = Some ''all'' then shuffle gen batches' g3 else (batches', g3))))"
    by (simp only: DefaultSampler_def entries_def [symmetric] envall_def [symmetric] ss prod.case)
  from assms obtain bl g2 where
    loop: "batches_loop gen bs ov sh seq_sizes g1 = Inr (bl, g2)"
    unfolding unf by (cases "batches_loop gen bs ov sh seq_sizes g1") auto
  obtain b3 g3 where
    rg: "(if envall then regroup gen bs (groupby_env (concat bl)) g2
          else (map (map Some) bl, g2)) = (b3, g3)"
    by (cases "(if envall then regroup gen bs (groupby_env (concat bl)) g2
          else (map (map Some) bl, g2))")
  from assms have fin:
    "(if sh = Some ''all'' then shuffle gen b3 g3 else (b3, g3)) = (batches, g')"
    unfolding unf by (simp only: loop rg sum.case prod.case sum.inject)
  have p3: "batches = map (map Some) bl \<and> g' = g2" if "sh \<noteq> Some ''env''" "sh \<noteq> Some ''all''"
  proof -
    from that have "\<not> envall" by (simp only: envall_def) blast
    with rg have "(map (map Some) bl, g2) = (b3, g3)" by (simp only: if_False simp_thms)
    moreover from fin that(2) have "(b3, g3) = (batches, g')" by (simp only: if_False simp_thms)
    ultimately show ?thesis by simp
  qed
  have p4: "set batches = set (fst (regroup gen bs (groupby_env (concat bl)) g2))"
    if "sh = Some ''env'' \<or> sh = Some ''all''"
  proof -
    from that have envall by (simp only: envall_def)
    with rg have "regroup gen bs (groupby_env (concat bl)) g2 = (b3, g3)" by (simp only: if_True simp_thms)
    then have "b3 = fst (regroup gen bs (groupby_env (concat bl)) g2)" by simp
    moreover have "set batches = set b3"
    proof (cases "sh = Some ''all''")
      case True
      with fin have "shuffle gen b3 g3 = (batches, g')" by (simp only: if_True simp_thms)
      then show ?thesis by (rule shuffle_set)
    next
      case False
      with fin have "(b3, g3) = (batches, g')" by (simp only: if_False simp_thms)
      then show ?thesis by simp
    qed
    ultimately show ?thesis by simp
  qed
  from s1 loop p3 p4 show ?thesis by blast
qed


lemma seq_batches_total:
  "ov \<or> bs \<noteq> 0 \<Longrightarrow> seq_batches bs ov x = Inr (projr (seq_batches bs ov x))"
  by (cases x) (auto simp: seq_batches_def np_arange_def Let_def)

lemma sampler_total:
  assumes "ov \<or> bs \<noteq> 0"
  shows "\<exists>batches g'. DefaultSampler gen cat get_size bs sh ov g = Inr (batches, g')"
proof -
  define entries where "entries = map (\<lambda>es. (es, get_size (fst es) (snd es))) (get_env_seqs cat)"
  define envall where "envall \<longleftrightarrow> sh = Some ''env'' \<or> sh = Some ''all''"
  obtain seq_sizes g1 where
    ss: "(if sh = Some ''seq'' then shuffle gen entries g else (entries, g)) = (seq_sizes, g1)"
    by (cases "(if sh = Some ''seq'' then shuffle gen entries g else (entries, g))")
  from batches_loop_mset [of seq_sizes bs ov "\<lambda>x. projr (seq_batches bs ov x)" gen sh g1]
    seq_batches_total [OF assms]
  obtain bl g2 where loop: "batches_loop gen bs ov sh seq_sizes g1 = Inr (bl, g2)" by blast
  obtain b3 g3 where
    rg: "(if envall then regroup gen bs (groupby_env (concat bl)) g2
          else (map (map Some) bl, g2)) = (b3, g3)"
    by (cases "(if envall then regroup gen bs (groupby_env (concat bl)) g2
          else (map (map Some) bl, g2))")
  obtain b4 g4 where
    fin: "(if sh = Some ''all'' then shuffle gen b3 g3 else (b3, g3)) = (b4, g4)"
    by (cases "(if sh = Some ''all'' then shuffle gen b3 g3 else (b3, g3))")
  have "DefaultSampler gen cat get_size bs sh ov g = Inr (b4, g4)"
    by (simp only: DefaultSampler_def entries_def [symmetric] envall_def [symmetric] ss loop rg fin
        prod.case sum.case)
  then show ?thesis by blast
qed

lemma sampler_triple_provenance:
  assumes "DefaultSampler gen cat get_size bs sh ov g = Inr (batches, g')"
    and "b \<in> set batches" and "Some t \<in> set b"
  shows "\<exists>e s bb b0. (e, s) \<in> set (get_env_seqs cat)
           \<and> seq_batches bs ov ((e, s), get_size e s) = Inr bb \<and> b0 \<in> set bb \<and> t \<in> set b0"
proof -
  from sampler_unfold [OF assms(1)] obtain seq_sizes g1 bl g2 where
    ms: "mset seq_sizes = mset (map (\<lambda>es. (es, get_size (fst es) (snd es))) (get_env_seqs cat))"
    and loop: "batches_loop gen bs ov sh seq_sizes g1 = Inr (bl, g2)"
    and plain: "sh \<noteq> Some ''env'' \<Longrightarrow> sh \<noteq> Some ''all'' \<Longrightarrow> batches = map (map Some) bl \<and> g' = g2"
    and regr: "sh = Some ''env'' \<or> sh = Some ''all'' \<Longrightarrow>
       set batches = set (fst (regroup gen bs (groupby_env (concat bl)) g2))"
    by blast
  from ms have st: "set seq_sizes = (\<lambda>es. (es, get_size (fst es) (snd es))) ` set (get_env_seqs cat)"
    by (metis mset_eq_setD set_map)
  have "\<exists>b0 \<in> set bl. t \<in> set b0"
  proof (cases "sh = Some ''env'' \<or> sh = Some ''all''")
    case False
    with plain have "batches = map (map Some) bl" by blast
    with assms(2) obtain b0 where "b0 \<in> set bl" "b = map Some b0" by auto
    with assms(3) show ?thesis by auto
  next
    case True
    obtain b3 g3 where r: "regroup gen bs (groupby_env (concat bl)) g2 = (b3, g3)"
      by (cases "regroup gen bs (groupby_env (concat bl)) g2")
    with regr [OF True] assms(2) have "b \<in> set b3" by simp
    from regroup_sound [OF r this] assms(3) obtain grp where
      "grp \<in> set (groupby_env (concat bl))" "t \<in> set grp" by blast
    with groupby_env_sound [of grp "concat bl"] have "t \<in> set (concat bl)" by blast
    then show ?thesis by auto
  qed
  then obtain b0 where b0: "b0 \<in> set bl" "t \<in> set b0" by blast
  from batches_loop_sound [OF loop b0(1)] obtain x bb where
    x: "x \<in> set seq_sizes" "seq_batches bs ov x = Inr bb" "b0 \<in> set bb" by blast
  from x(1) st obtain e s where "(e, s) \<in> set (get_env_seqs cat)" "x = ((e, s), get_size e s)"
    by auto
  with x b0 show ?thesis by blast
qed

lemma sampler_None_tiling:
  assumes "0 < B"
  shows "DefaultSampler gen cat get_size B None False g =
         Inr (concat (map (\<lambda>(e, s). map (\<lambda>k. map (\<lambda>i. Some (e, s, int k * B + int i)) [0..<nat B])
                                       [0..<nat (ceil_div (get_size e s) B - 1)])
                          (get_env_seqs cat)), g)"
proof -
  have "seq_batches B False ((e, s), get_size e s) =
      Inr (map (\<lambda>k. map (\<lambda>i. (e, s, int k * B + int i)) [0..<nat B])
                 [0..<nat (ceil_div (get_size e s) B - 1)])" for e s
    using seq_batches_tiling [OF assms, of e s "get_size e s"] ceil_div_pred [OF assms, of "get_size e s"]
    by simp
  from sampler_plain [of None B False get_size _ gen cat g, OF _ _ _ _ this]
  show ?thesis by (simp add: comp_def)
qed


section \<open>The sampler's claims\<close>

text \<open>
  Claim C1, as amended. With \<open>overlap=False\<close>, shuffle mode none and a positive batch
  size \<open>B\<close>, the sampler emits, for each pair in catalog order, only full chunks: one
  batch for each offset \<open>0, B, 2B, ...\<close> strictly below \<open>S - B\<close>, that is
  \<open>ceil(S/B) - 1\<close> batches (none when \<open>S \<le> B\<close>), the \<open>k\<close>-th holding the
  \<open>B\<close> consecutive indices \<open>k*B, ..., k*B + B - 1\<close>. For a single pair the
  concatenation of the batches is \<open>0, 1, ..., (ceil(S/B) - 1) * B - 1\<close>: each of
  these indices appears exactly once and the remaining frames of the sequence appear in no
  batch. In the scenario the sampler emits seven batches: \<open>[0,1],[2,3]\<close> for s1,
  \<open>[0,1]\<close> for s2 and \<open>[0,1],[2,3],[4,5],[6,7]\<close> for s3.
\<close>

theorem sampler_tiling_full_chunks:
  assumes "0 < B"
  shows "DefaultSampler gen cat get_size B None False g =
           Inr (concat (map (\<lambda>(e, s). map (\<lambda>k. map (\<lambda>i. Some (e, s, int k * B + int i)) [0..<nat B])
                                         [0..<nat (ceil_div (get_size e s) B - 1)])
                            (get_env_seqs cat)), g)
       \<and> (\<exists>bl. DefaultSampler gen [(e, [s])] get_size B None False g = Inr (bl, g)
             \<and> length bl = nat (ceil_div (get_size e s) B - 1)
             \<and> (\<forall>b \<in> set bl. length b = nat B)
             \<and> concat bl = map (\<lambda>i. Some (e, s, int i))
                               [0..<nat (ceil_div (get_size e s) B - 1) * nat B])
       \<and> DefaultSampler gen scenario_catalog scenario_size 2 None False g =
           Inr ([[Some (''envA'', ''s1'', 0), Some (''envA'', ''s1'', 1)],
                 [Some (''envA'', ''s1'', 2), Some (''envA'', ''s1'', 3)],
                 [Some (''envA'', ''s2'', 0), Some (''envA'', ''s2'', 1)],
                 [Some (''envB'', ''s3'', 0), Some (''envB'', ''s3'', 1)],
                 [Some (''envB'', ''s3'', 2), Some (''envB'', ''s3'', 3)],
                 [Some (''envB'', ''s3'', 4), Some (''envB'', ''s3'', 5)],
                 [Some (''envB'', ''s3'', 6), Some (''envB'', ''s3'', 7)]], g)"
proof (intro conjI)
  show "DefaultSampler gen cat get_size B None False g =
           Inr (concat (map (\<lambda>(e, s). map (\<lambda>k. map (\<lambda>i. Some (e, s, int k * B + int i)) [0..<nat B])
                                         [0..<nat (ceil_div (get_size e s) B - 1)])
                            (get_env_seqs cat)), g)"
    by (rule sampler_None_tiling [OF assms])
next
  define n where "n = nat (ceil_div (get_size e s) B - 1)"
  define bl where "bl = map (\<lambda>k. map (\<lambda>i. Some (e, s, int k * B + int i)) [0..<nat B]) [0..<n]"
  have "DefaultSampler gen [(e, [s])] get_size B None False g = Inr (bl, g)"
    using sampler_None_tiling [OF assms, of gen "[(e, [s])]" get_size g]
    by (simp add: get_env_seqs_def bl_def n_def)
  moreover have "length bl = n" by (simp add: bl_def)
  moreover have "\<forall>b \<in> set bl. length b = nat B" by (auto simp: bl_def)
  moreover have "concat bl = map (\<lambda>i. Some (e, s, int i)) [0..<n * nat B]"
    unfolding bl_def by (rule concat_chunks)
  ultimately show "\<exists>bl. DefaultSampler gen [(e, [s])] get_size B None False g = Inr (bl, g)
             \<and> length bl = nat (ceil_div (get_size e s) B - 1)
             \<and> (\<forall>b \<in> set bl. length b = nat B)
             \<and> concat bl = map (\<lambda>i. Some (e, s, int i))
                               [0..<nat (ceil_div (get_size e s) B - 1) * nat B]"
    unfolding n_def by blast
next
  have "concat (map (\<lambda>(e, s). map (\<lambda>k. map (\<lambda>i. Some (e, s, int k * 2 + int i)) [0..<nat 2])
                                       [0..<nat (ceil_div (scenario_size e s) 2 - 1)])
                          (get_env_seqs scenario_catalog)) =
       [[Some (''envA'', ''s1'', 0), Some (''envA'', ''s1'', 1)],
        [Some (''envA'', ''s1'', 2), Some (''envA'', ''s1'', 3)],
        [Some (''envA'', ''s2'', 0), Some (''envA'', ''s2'', 1)],
        [Some (''envB'', ''s3'', 0), Some (''envB'', ''s3'', 1)],
        [Some (''envB'', ''s3'', 2), Some (''envB'', ''s3'', 3)],
        [Some (''envB'', ''s3'', 4), Some (''envB'', ''s3'', 5)],
        [Some (''envB'', ''s3'', 6), Some (''envB'', ''s3'', 7)]]"
    by code_simp
  then show "DefaultSampler gen scenario_catalog scenario_size 2 None False g =
           Inr ([[Some (''envA'', ''s1'', 0), Some (''envA'', ''s1'', 1)],
                 [Some (''envA'', ''s1'', 2), Some (''envA'', ''s1'', 3)],
                 [Some (''envA'', ''s2'', 0), Some (''envA'', ''s2'', 1)],
                 [Some (''envB'', ''s3'', 0), Some (''envB'', ''s3'', 1)],
                 [Some (''envB'', ''s3'', 2), Some (''envB'', ''s3'', 3)],
                 [Some (''envB'', ''s3'', 4), Some (''envB'', ''s3'', 5)],
                 [Some (''envB'', ''s3'', 6), Some (''envB'', ''s3'', 7)]], g)"
    using sampler_None_tiling [of 2 gen scenario_catalog scenario_size g] by simp
qed

theorem sampler_tiling_full_chunks_witness:
  "(0::int) < 2
   \<and> DefaultSampler gen_zero [(''e'', [''s''])] (\<lambda>e s. 5) 2 None False 0 =
       Inr ([[Some (''e'', ''s'', 0), Some (''e'', ''s'', 1)],
             [Some (''e'', ''s'', 2), Some (''e'', ''s'', 3)]], 0)"
proof -
  have h: "(0::int) < 2" by simp
  have "concat (map (\<lambda>(e, s). map (\<lambda>k. map (\<lambda>i. Some (e, s, int k * 2 + int i)) [0..<nat 2])
                                         [0..<nat (ceil_div ((\<lambda>e s. 5) e s) 2 - 1)])
                            (get_env_seqs [(''e'', [''s''])])) =
        [[Some (''e'', ''s'', 0), Some (''e'', ''s'', 1)],
             [Some (''e'', ''s'', 2), Some (''e'', ''s'', 3)]]"
    by code_simp
  with sampler_tiling_full_chunks [OF h, of gen_zero "[(''e'', [''s''])]" "\<lambda>e s. 5" 0]
  show ?thesis by simp
qed

text \<open>
  The claim as stated fails on the scenario: the ten batches it lists (with the short
  batches \<open>[4]\<close> of s1 and \<open>[2]\<close> of s2 and the batch \<open>[8,9]\<close> of s3) are not
  what the constructor builds.
\<close>

theorem sampler_tiling_scenario_counterexample:
  "map_sum id fst (DefaultSampler gen_zero scenario_catalog scenario_size 2 None False 0) =
     Inr [[Some (''envA'', ''s1'', 0), Some (''envA'', ''s1'', 1)],
          [Some (''envA'', ''s1'', 2), Some (''envA'', ''s1'', 3)],
          [Some (''envA'', ''s2'', 0), Some (''envA'', ''s2'', 1)],
          [Some (''envB'', ''s3'', 0), Some (''envB'', ''s3'', 1)],
          [Some (''envB'', ''s3'', 2), Some (''envB'', ''s3'', 3)],
          [Some (''envB'', ''s3'', 4), Some (''envB'', ''s3'', 5)],
          [Some (''envB'', ''s3'', 6), Some (''envB'', ''s3'', 7)]]
   \<and> map_sum id fst (DefaultSampler gen_zero scenario_catalog scenario_size 2 None False 0) \<noteq>
     Inr [[Some (''envA'', ''s1'', 0), Some (''envA'', ''s1'', 1)],
          [Some (''envA'', ''s1'', 2), Some (''envA'', ''s1'', 3)],
          [Some (''envA'', ''s1'', 4)],
          [Some (''envA'', ''s2'', 0), Some (''envA'', ''s2'', 1)],
          [Some (''envA'', ''s2'', 2)],
          [Some (''envB'', ''s3'', 0), Some (''envB'', ''s3'', 1)],
          [Some (''envB'', ''s3'', 2), Some (''envB'', ''s3'', 3)],
          [Some (''envB'', ''s3'', 4), Some (''envB'', ''s3'', 5)],
          [Some (''envB'', ''s3'', 6), Some (''envB'', ''s3'', 7)],
          [Some (''envB'', ''s3'', 8), Some (''envB'', ''s3'', 9)]]"
  by code_simp

lemma seq_batches_short:
  assumes "0 < B" "S \<le> B"
  shows "seq_batches B False ((e, s), S) = Inr []"
proof -
  have "(S - 1) div B \<le> (B - 1) div B"
    using assms by (intro zdiv_mono1) simp_all
  also have "(B - 1) div B = 0"
    using assms(1) by (simp add: div_pos_pos_trivial)
  finally show ?thesis using seq_batches_tiling [OF assms(1), of e s S] by simp
qed

lemma sampler_no_batches:
  assumes "DefaultSampler gen cat get_size bs sh ov g = Inr (batches, g')"
    and "\<And>e s. (e, s) \<in> set (get_env_seqs cat) \<Longrightarrow> seq_batches bs ov ((e, s), get_size e s) = Inr []"
  shows "batches = []"
proof -
  from sampler_unfold [OF assms(1)] obtain seq_sizes g1 bl g2 where
    ms: "mset seq_sizes = mset (map (\<lambda>es. (es, get_size (fst es) (snd es))) (get_env_seqs cat))"
    and loop: "batches_loop gen bs ov sh seq_sizes g1 = Inr (bl, g2)"
    and plain: "sh \<noteq> Some ''env'' \<and> sh \<noteq> Some ''all'' \<longrightarrow> batches = map (map Some) bl \<and> g' = g2"
    and regr: "sh = Some ''env'' \<or> sh = Some ''all'' \<longrightarrow>
       set batches = set (fst (regroup gen bs (groupby_env (concat bl)) g2))"
    by blast
  from ms have st: "set seq_sizes = (\<lambda>es. (es, get_size (fst es) (snd es))) ` set (get_env_seqs cat)"
    by (metis mset_eq_setD set_map)
  have "bl = []"
  proof (rule ccontr)
    assume "bl \<noteq> []"
    then obtain b0 where "b0 \<in> set bl" by (cases bl) auto
    from batches_loop_sound [OF loop this] obtain x bb where
      x: "x \<in> set seq_sizes" "seq_batches bs ov x = Inr bb" "b0 \<in> set bb" by blast
    from x(1) st obtain e s where "(e, s) \<in> set (get_env_seqs cat)" "x = ((e, s), get_size e s)"
      by auto
    with assms(2) x(2,3) show False by auto
  qed
  show ?thesis
  proof (cases "sh = Some ''env'' \<or> sh = Some ''all''")
    case False
    with plain \<open>bl = []\<close> show ?thesis by simp
  next
    case True
    with regr \<open>bl = []\<close> have "set batches = {}" by simp
    then show ?thesis by simp
  qed
qed

text \<open>
  Claim C2, as amended. With \<open>overlap=False\<close> and a positive batch size, a pair whose
  size is strictly smaller than the batch size gets no batch at all, in every shuffle mode:
  the constructor returns, no emitted batch contains a triple of that pair, and for a
  catalog holding only that pair the list of batches is empty.
\<close>

theorem sampler_short_sequence_no_batch:
  assumes "0 < B" and "get_size e s < B"
  shows "\<exists>batches g'. DefaultSampler gen cat get_size B sh False g = Inr (batches, g')
           \<and> (\<forall>b \<in> set batches. \<forall>i. Some (e, s, i) \<notin> set b)
           \<and> (\<exists>g''. DefaultSampler gen [(e, [s])] get_size B sh False g = Inr ([], g''))"
proof -
  have short: "seq_batches B False ((e, s), get_size e s) = Inr []"
    using assms by (intro seq_batches_short) simp_all
  from assms(1) have nz: "False \<or> B \<noteq> 0" by simp
  from sampler_total [OF nz, of gen cat get_size sh g] obtain batches g' where
    r: "DefaultSampler gen cat get_size B sh False g = Inr (batches, g')" by blast
  have none: "Some (e, s, i) \<notin> set b" if "b \<in> set batches" for b i
  proof
    assume "Some (e, s, i) \<in> set b"
    from sampler_triple_provenance [OF r that this] obtain e' s' bb b0 where
      p: "seq_batches B False ((e', s'), get_size e' s') = Inr bb" "b0 \<in> set bb" "(e, s, i) \<in> set b0"
      by blast
    from seq_batches_pair [OF p] have "e' = e" "s' = s" by simp_all
    with p short show False by simp
  qed
  from sampler_total [OF nz, of gen "[(e, [s])]" get_size sh g] obtain b1 g1 where
    r1: "DefaultSampler gen [(e, [s])] get_size B sh False g = Inr (b1, g1)" by blast
  have "b1 = []"
    using r1 by (rule sampler_no_batches) (simp add: get_env_seqs_def short)
  with r r1 none show ?thesis by blast
qed

theorem sampler_short_sequence_no_batch_witness:
  "(0::int) < 2 \<and> (1::int) < 2
   \<and> map_sum id fst (DefaultSampler gen_zero [(''e'', [''s''])] (\<lambda>e s. 1) 2 None False 0) = Inr []"
proof -
  have h1: "(0::int) < 2" and h2: "(\<lambda>e s. 1 :: int) ''e'' ''s'' < 2" by simp_all
  from sampler_short_sequence_no_batch [OF h1 h2, of gen_zero "[(''e'', [''s''])]" None 0]
  have "\<exists>g''. DefaultSampler gen_zero [(''e'', [''s''])] (\<lambda>e s. 1) 2 None False 0 = Inr ([], g'')"
    by blast
  then show ?thesis by auto
qed

text \<open>
  The claim as stated fails: a sequence of one frame with batch size two yields no batch,
  not the single short batch \<open>[0]\<close>.
\<close>

theorem sampler_short_sequence_counterexample:
  "map_sum id fst (DefaultSampler gen_zero [(''e'', [''s''])] (\<lambda>e s. 1) 2 None False 0) = Inr []
   \<and> map_sum id fst (DefaultSampler gen_zero [(''e'', [''s''])] (\<lambda>e s. 1) 2 None False 0)
       \<noteq> Inr [[Some (''e'', ''s'', 0)]]"
  by code_simp

text \<open>
  Claim C5, as amended. With \<open>overlap=True\<close>, a non-negative batch size \<open>B\<close> and
  shuffle mode none, \<open>"seq"\<close> or \<open>"batch"\<close>, the constructor returns and its batches
  are, up to their order, exactly one batch per pair and starting offset
  \<open>0, ..., S - B - 1\<close> (none when \<open>S \<le> B\<close>), each holding the \<open>B\<close> triples of the
  consecutive indices \<open>offset, ..., offset + B - 1\<close>; with shuffle mode none they come in
  catalog and offset order.
\<close>

theorem sampler_overlap_windows:
  assumes "0 \<le> B" and "sh \<noteq> Some ''env''" and "sh \<noteq> Some ''all''"
  shows "\<exists>batches g'. DefaultSampler gen cat get_size B sh True g = Inr (batches, g')
       \<and> mset batches =
           mset (concat (map (\<lambda>(e, s). map (\<lambda>k. map (\<lambda>i. Some (e, s, int k + int i)) [0..<nat B])
                                        [0..<nat (get_size e s - B)])
                        (get_env_seqs cat)))
       \<and> (sh \<noteq> Some ''seq'' \<and> sh \<noteq> Some ''batch'' \<longrightarrow>
            batches = concat (map (\<lambda>(e, s). map (\<lambda>k. map (\<lambda>i. Some (e, s, int k + int i)) [0..<nat B])
                                         [0..<nat (get_size e s - B)])
                         (get_env_seqs cat)) \<and> g' = g)"
proof -
  define f :: "(env_id \<times> seq_id) \<times> int \<Rightarrow> triple list list" where
    "f = (\<lambda>x. map (\<lambda>k. map (\<lambda>i. (fst (fst x), snd (fst x), int k + int i)) [0..<nat B])
                  [0..<nat (snd x - B)])"
  define entries where "entries = map (\<lambda>es. (es, get_size (fst es) (snd es))) (get_env_seqs cat)"
  have fx: "seq_batches B True x = Inr (f x)" for x
    using seq_batches_overlap [OF assms(1), of "fst (fst x)" "snd (fst x)" "snd x"]
    by (simp add: f_def)
  have target: "map (map Some) (concat (map f entries)) =
      concat (map (\<lambda>(e, s). map (\<lambda>k. map (\<lambda>i. Some (e, s, int k + int i)) [0..<nat B])
                                         [0..<nat (get_size e s - B)])
                         (get_env_seqs cat))"
    by (simp add: entries_def f_def map_concat comp_def case_prod_unfold)
  have ov: "True \<or> B \<noteq> 0" by simp
  from sampler_total [OF ov, of gen cat get_size sh g] obtain batches g' where
    r: "DefaultSampler gen cat get_size B sh True g = Inr (batches, g')" by blast
  from sampler_unfold [OF r] assms(2,3) obtain seq_sizes g1 bl g2 where
    ms: "mset seq_sizes = mset entries"
    and loop: "batches_loop gen B True sh seq_sizes g1 = Inr (bl, g2)"
    and plain: "batches = map (map Some) bl"
    unfolding entries_def by blast
  from batches_loop_mset [of seq_sizes B True f gen sh g1] fx loop
  have "mset bl = mset (concat (map f seq_sizes))" by auto
  also have "\<dots> = mset (concat (map f entries))"
    using ms by (rule mset_concat_map_cong)
  finally have "mset batches = mset (map (map Some) (concat (map f entries)))"
    unfolding plain by (simp only: mset_map)
  then have m: "mset batches =
      mset (concat (map (\<lambda>(e, s). map (\<lambda>k. map (\<lambda>i. Some (e, s, int k + int i)) [0..<nat B])
                                         [0..<nat (get_size e s - B)])
                         (get_env_seqs cat)))"
    by (simp only: target)
  have p: "batches = concat (map (\<lambda>(e, s). map (\<lambda>k. map (\<lambda>i. Some (e, s, int k + int i)) [0..<nat B])
                                         [0..<nat (get_size e s - B)])
                         (get_env_seqs cat)) \<and> g' = g"
    if "sh \<noteq> Some ''seq'' \<and> sh \<noteq> Some ''batch''"
  proof -
    have "DefaultSampler gen cat get_size B sh True g =
         Inr (concat (map (\<lambda>(e, s). map (map Some) (f ((e, s), get_size e s))) (get_env_seqs cat)), g)"
      using that assms(2,3) by (intro sampler_plain) (simp_all add: fx)
    with r show ?thesis by (simp add: f_def comp_def)
  qed
  from r m p show ?thesis by blast
qed

theorem sampler_overlap_windows_witness:
  "(0::int) \<le> 2
   \<and> DefaultSampler gen_zero [(''e'', [''s''])] (\<lambda>e s. 4) 2 None True 0 =
       Inr ([[Some (''e'', ''s'', 0), Some (''e'', ''s'', 1)],
             [Some (''e'', ''s'', 1), Some (''e'', ''s'', 2)]], 0)"
proof -
  have h: "(0::int) \<le> 2" by simp
  have n: "(None :: string option) \<noteq> Some ''env''" "(None :: string option) \<noteq> Some ''all''"
    by simp_all
  have c: "concat (map (\<lambda>(e, s). map (\<lambda>k. map (\<lambda>i. Some (e, s, int k + int i)) [0..<nat 2])
                                         [0..<nat ((\<lambda>e s. 4) e s - 2)])
                         (get_env_seqs [(''e'', [''s''])])) =
       [[Some (''e'', ''s'', 0), Some (''e'', ''s'', 1)],
             [Some (''e'', ''s'', 1), Some (''e'', ''s'', 2)]]"
    by code_simp
  from sampler_overlap_windows [OF h n, of gen_zero "[(''e'', [''s''])]" "\<lambda>e s. 4" 0]
  show ?thesis unfolding c by auto
qed

text \<open>
  The claim as stated covers every shuffle mode and fails under \<open>"all"\<close> (the default):
  the windows \<open>[0,1]\<close> and \<open>[1,2]\<close> of a sequence of four frames are re-sliced into the
  batches \<open>[2,0]\<close> and \<open>[1,1]\<close>, which cover no window of consecutive indices.
\<close>

theorem sampler_overlap_windows_counterexample:
  "map_sum id fst (DefaultSampler gen_zero [(''e'', [''s''])] (\<lambda>e s. 4) 2 (Some ''all'') True 0) =
     Inr [[Some (''e'', ''s'', 2), Some (''e'', ''s'', 0)],
          [Some (''e'', ''s'', 1), Some (''e'', ''s'', 1)]]
   \<and> map_sum id fst (DefaultSampler gen_zero [(''e'', [''s''])] (\<lambda>e s. 4) 2 (Some ''all'') True 0) \<noteq>
     Inr [[Some (''e'', ''s'', 0), Some (''e'', ''s'', 1)],
          [Some (''e'', ''s'', 1), Some (''e'', ''s'', 2)]]
   \<and> map_sum id fst (DefaultSampler gen_zero [(''e'', [''s''])] (\<lambda>e s. 4) 2 (Some ''all'') True 0) \<noteq>
     Inr [[Some (''e'', ''s'', 1), Some (''e'', ''s'', 2)],
          [Some (''e'', ''s'', 0), Some (''e'', ''s'', 1)]]"
  by code_simp

text \<open>
  Claim C8. The constructor returns whenever \<open>overlap\<close> is set or the batch size is not
  zero, and whenever it returns: under every shuffle mode other than \<open>"env"\<close> and
  \<open>"all"\<close> (none, \<open>"seq"\<close>, \<open>"batch"\<close>) all triples of a batch belong to one
  (environment, sequence) pair of the catalog; under \<open>"env"\<close> and \<open>"all"\<close> the present
  triples of a batch share one environment identifier.
\<close>

theorem sampler_batches_share_key:
  shows "(ov \<or> bs \<noteq> 0 \<longrightarrow> (\<exists>batches g'. DefaultSampler gen cat get_size bs sh ov g = Inr (batches, g')))
       \<and> (\<forall>batches g' b. DefaultSampler gen cat get_size bs sh ov g = Inr (batches, g') \<and> b \<in> set batches \<longrightarrow>
            (sh \<noteq> Some ''env'' \<and> sh \<noteq> Some ''all'' \<longrightarrow>
               (\<exists>e s. (e, s) \<in> set (get_env_seqs cat) \<and> (\<forall>t \<in> set b. \<exists>i. t = Some (e, s, i))))
          \<and> (sh = Some ''env'' \<or> sh = Some ''all'' \<longrightarrow>
               (\<exists>e. \<forall>t. Some t \<in> set b \<longrightarrow> fst t = e)))"
proof (intro conjI allI impI)
  assume "ov \<or> bs \<noteq> 0"
  then show "\<exists>batches g'. DefaultSampler gen cat get_size bs sh ov g = Inr (batches, g')"
    by (rule sampler_total)
next
  fix batches g' b
  assume a: "DefaultSampler gen cat get_size bs sh ov g = Inr (batches, g') \<and> b \<in> set batches"
    and m: "sh \<noteq> Some ''env'' \<and> sh \<noteq> Some ''all''"
  from sampler_unfold [of gen cat get_size bs sh ov g batches g'] a obtain seq_sizes g1 bl g2 where
    ms: "mset seq_sizes = mset (map (\<lambda>es. (es, get_size (fst es) (snd es))) (get_env_seqs cat))"
    and loop: "batches_loop gen bs ov sh seq_sizes g1 = Inr (bl, g2)"
    and plain: "sh \<noteq> Some ''env'' \<and> sh \<noteq> Some ''all'' \<longrightarrow> batches = map (map Some) bl \<and> g' = g2"
    by blast
  from ms have st: "set seq_sizes = (\<lambda>es. (es, get_size (fst es) (snd es))) ` set (get_env_seqs cat)"
    by (metis mset_eq_setD set_map)
  from plain m a obtain b0 where b0: "b0 \<in> set bl" "b = map Some b0" by auto
  from batches_loop_sound [OF loop b0(1)] obtain x bb where
    x: "x \<in> set seq_sizes" "seq_batches bs ov x = Inr bb" "b0 \<in> set bb" by blast
  from x(1) st obtain e s where es: "(e, s) \<in> set (get_env_seqs cat)" "x = ((e, s), get_size e s)"
    by auto
  have "\<forall>t \<in> set b. \<exists>i. t = Some (e, s, i)"
  proof
    fix t assume "t \<in> set b"
    with b0(2) obtain u where u: "u \<in> set b0" "t = Some u" by auto
    from seq_batches_pair [OF x(2) [unfolded es(2)] x(3) u(1)] u(2)
    show "\<exists>i. t = Some (e, s, i)" by simp
  qed
  with es(1) show "\<exists>e s. (e, s) \<in> set (get_env_seqs cat) \<and> (\<forall>t \<in> set b. \<exists>i. t = Some (e, s, i))"
    by blast
next
  fix batches g' b
  assume a: "DefaultSampler gen cat get_size bs sh ov g = Inr (batches, g') \<and> b \<in> set batches"
    and m: "sh = Some ''env'' \<or> sh = Some ''all''"
  from sampler_unfold [of gen cat get_size bs sh ov g batches g'] a m obtain bl g2 where
    regr: "set batches = set (fst (regroup gen bs (groupby_env (concat bl)) g2))"
    by blast
  obtain b3 g3 where r: "regroup gen bs (groupby_env (concat bl)) g2 = (b3, g3)"
    by (cases "regroup gen bs (groupby_env (concat bl)) g2")
  with regr a have "b \<in> set b3" by simp
  from regroup_sound [OF r this] obtain grp where
    grp: "grp \<in> set (groupby_env (concat bl))" "\<forall>t. Some t \<in> set b \<longrightarrow> t \<in> set grp" by blast
  from groupby_env_sound [OF grp(1)] have same: "\<forall>u \<in> set grp. \<forall>v \<in> set grp. fst u = fst v"
    by blast
  show "\<exists>e. \<forall>t. Some t \<in> set b \<longrightarrow> fst t = e"
  proof (cases "\<exists>t0. Some t0 \<in> set b")
    case False
    then show ?thesis by blast
  next
    case True
    then obtain t0 where "Some t0 \<in> set b" by blast
    with grp(2) same have "\<forall>t. Some t \<in> set b \<longrightarrow> fst t = fst t0" by blast
    then show ?thesis by blast
  qed
qed


theorem sampler_batches_share_key_witness:
  "DefaultSampler gen_zero scenario_catalog scenario_size 2 None False 0 =
     Inr ([[Some (''envA'', ''s1'', 0), Some (''envA'', ''s1'', 1)],
           [Some (''envA'', ''s1'', 2), Some (''envA'', ''s1'', 3)],
           [Some (''envA'', ''s2'', 0), Some (''envA'', ''s2'', 1)],
           [Some (''envB'', ''s3'', 0), Some (''envB'', ''s3'', 1)],
           [Some (''envB'', ''s3'', 2), Some (''envB'', ''s3'', 3)],
           [Some (''envB'', ''s3'', 4), Some (''envB'', ''s3'', 5)],
           [Some (''envB'', ''s3'', 6), Some (''envB'', ''s3'', 7)]], 0)
   \<and> (\<exists>e s. (e, s) \<in> set (get_env_seqs scenario_catalog)
          \<and> (\<forall>t \<in> set ([Some (''envA'', ''s2'', 0), Some (''envA'', ''s2'', 1)] :: triple option list).
                \<exists>i. t = Some (e, s, i)))
   \<and> DefaultSampler gen_zero scenario_catalog scenario_size 4 (Some ''all'') False 0 =
     Inr ([[Some (''envB'', ''s3'', 1), Some (''envB'', ''s3'', 2),
            Some (''envB'', ''s3'', 3), Some (''envB'', ''s3'', 4)],
           [Some (''envB'', ''s3'', 5), Some (''envB'', ''s3'', 6),
            Some (''envB'', ''s3'', 7), Some (''envB'', ''s3'', 0)],
           [Some (''envA'', ''s1'', 1), Some (''envA'', ''s1'', 2),
            Some (''envA'', ''s1'', 3), Some (''envA'', ''s1'', 0)]], 0)
   \<and> (\<exists>e. \<forall>t. Some t \<in> set ([Some (''envA'', ''s1'', 1), Some (''envA'', ''s1'', 2),
            Some (''envA'', ''s1'', 3), Some (''envA'', ''s1'', 0)] :: triple option list) \<longrightarrow> fst t = e)"
proof -
  have e1: "DefaultSampler gen_zero scenario_catalog scenario_size 2 None False 0 =
     Inr ([[Some (''envA'', ''s1'', 0), Some (''envA'', ''s1'', 1)],
           [Some (''envA'', ''s1'', 2), Some (''envA'', ''s1'', 3)],
           [Some (''envA'', ''s2'', 0), Some (''envA'', ''s2'', 1)],
           [Some (''envB'', ''s3'', 0), Some (''envB'', ''s3'', 1)],
           [Some (''envB'', ''s3'', 2), Some (''envB'', ''s3'', 3)],
           [Some (''envB'', ''s3'', 4), Some (''envB'', ''s3'', 5)],
           [Some (''envB'', ''s3'', 6), Some (''envB'', ''s3'', 7)]], 0)"
    by code_simp
  have e2: "DefaultSampler gen_zero scenario_catalog scenario_size 4 (Some ''all'') False 0 =
     Inr ([[Some (''envB'', ''s3'', 1), Some (''envB'', ''s3'', 2),
            Some (''envB'', ''s3'', 3), Some (''envB'', ''s3'', 4)],
           [Some (''envB'', ''s3'', 5), Some (''envB'', ''s3'', 6),
            Some (''envB'', ''s3'', 7), Some (''envB'', ''s3'', 0)],
           [Some (''envA'', ''s1'', 1), Some (''envA'', ''s1'', 2),
            Some (''envA'', ''s1'', 3), Some (''envA'', ''s1'', 0)]], 0)"
    by code_simp
  have n: "(None :: string option) \<noteq> Some ''env'' \<and> (None :: string option) \<noteq> Some ''all''"
    by simp
  have m1: "([Some (''envA'', ''s2'', 0), Some (''envA'', ''s2'', 1)] :: triple option list) \<in>
      set [[Some (''envA'', ''s1'', 0), Some (''envA'', ''s1'', 1)],
           [Some (''envA'', ''s1'', 2), Some (''envA'', ''s1'', 3)],
           [Some (''envA'', ''s2'', 0), Some (''envA'', ''s2'', 1)],
           [Some (''envB'', ''s3'', 0), Some (''envB'', ''s3'', 1)],
           [Some (''envB'', ''s3'', 2), Some (''envB'', ''s3'', 3)],
           [Some (''envB'', ''s3'', 4), Some (''envB'', ''s3'', 5)],
           [Some (''envB'', ''s3'', 6), Some (''envB'', ''s3'', 7)]]"
    by simp
  have m2: "([Some (''envA'', ''s1'', 1), Some (''envA'', ''s1'', 2),
            Some (''envA'', ''s1'', 3), Some (''envA'', ''s1'', 0)] :: triple option list) \<in>
      set [[Some (''envB'', ''s3'', 1), Some (''envB'', ''s3'', 2),
            Some (''envB'', ''s3'', 3), Some (''envB'', ''s3'', 4)],
           [Some (''envB'', ''s3'', 5), Some (''envB'', ''s3'', 6),
            Some (''envB'', ''s3'', 7), Some (''envB'', ''s3'', 0)],
           [Some (''envA'', ''s1'', 1), Some (''envA'', ''s1'', 2),
            Some (''envA'', ''s1'', 3), Some (''envA'', ''s1'', 0)]]"
    by simp
  have a1: "\<exists>e s. (e, s) \<in> set (get_env_seqs scenario_catalog)
          \<and> (\<forall>t \<in> set ([Some (''envA'', ''s2'', 0), Some (''envA'', ''s2'', 1)] :: triple option list).
                \<exists>i. t = Some (e, s, i))"
    by (rule sampler_batches_share_key [of False 2 gen_zero scenario_catalog scenario_size None 0,
          THEN conjunct2, THEN spec, THEN spec, THEN spec, THEN mp, OF conjI [OF e1 m1],
          THEN conjunct1, THEN mp, OF n])
  have a2: "\<exists>e. \<forall>t. Some t \<in> set ([Some (''envA'', ''s1'', 1), Some (''envA'', ''s1'', 2),
            Some (''envA'', ''s1'', 3), Some (''envA'', ''s1'', 0)] :: triple option list) \<longrightarrow> fst t = e"
    by (rule sampler_batches_share_key [of False 4 gen_zero scenario_catalog scenario_size "Some ''all''" 0,
          THEN conjunct2, THEN spec, THEN spec, THEN spec, THEN mp, OF conjI [OF e2 m2],
          THEN conjunct2, THEN mp, OF disjI2 [OF refl]])
  show ?thesis by (intro conjI e1 e2 a1 a2)
qed

lemma include_exclude_loop_keep:
  assumes "\<And>p. p \<in> set pairs \<Longrightarrow> \<not> rejected re_search incl excl (get_seq_id (fst p) (snd p))"
  shows "include_exclude_loop re_search incl excl pairs cat = Inr cat"
  using assms
proof (induction pairs)
  case Nil
  then show ?case by simp
next
  case (Cons p pairs)
  obtain env seq where p: "p = (env, seq)" by (cases p)
  from Cons.prems [of p] p have "\<not> rejected re_search incl excl (get_seq_id env seq)" by simp
  moreover have "include_exclude_loop re_search incl excl pairs cat = Inr cat"
    by (rule Cons.IH) (simp add: Cons.prems)
  ultimately show ?case by (simp add: p)
qed

section \<open>The catalog's claims\<close>

text \<open>
  Claim C9. With both patterns absent \<open>include_exclude\<close> returns and leaves the catalog
  as it was: the same environments in the same order, each with the same sequence list.
  This holds for every catalog, also one with duplicates or empty lists.
\<close>

theorem include_exclude_none_identity:
  "include_exclude re_compile re_search None None cat = Inr cat"
proof -
  have "\<not> rejected re_search None None s" for s
    by (simp add: rejected_def)
  then have "include_exclude_loop re_search None None (get_env_seqs cat) cat = Inr cat"
    by (intro include_exclude_loop_keep)
  then show ?thesis by (simp add: include_exclude_def compile_opt_def)
qed

theorem include_exclude_none_identity_witness:
  "include_exclude (\<lambda>x. Some x) (\<lambda>p s. p = s) None None scenario_catalog = Inr scenario_catalog"
  by (rule include_exclude_none_identity)

text \<open>
  Claim C7. \<open>__getitem__\<close> on \<open>(env, seq, idx)\<close>: an environment that is no key of
  the catalog fails with the "no such environment" assertion, a sequence that is not in the
  environment's list with the "no such sequence" assertion, an index outside
  \<open>0 \<le> idx < get_size env seq\<close> with the "index out of bound" assertion; in none of these
  cases is \<open>getitem_impl\<close> called (the only hook call is \<open>get_size\<close>, in the third
  case). With all three checks passed the result is the tuple of the fetched item (a
  non-tuple item wrapped) followed by the triple \<open>(env, seq, idx)\<close> as its last element.
\<close>

theorem getitem_validation:
  "(map_of cat env = None \<longrightarrow>
      getitem cat get_size getitem_impl (env, seq, idx)
        = (Inl (AssertionError (NoSuchEnvironment env)), []))
   \<and> (\<forall>seqs. map_of cat env = Some seqs \<and> seq \<notin> set seqs \<longrightarrow>
      getitem cat get_size getitem_impl (env, seq, idx)
        = (Inl (AssertionError (NoSuchSequence env seq)), []))
   \<and> (\<forall>seqs. map_of cat env = Some seqs \<and> seq \<in> set seqs
         \<and> \<not> (0 \<le> idx \<and> idx < get_size env seq) \<longrightarrow>
      fst (getitem cat get_size getitem_impl (env, seq, idx))
        = Inl (AssertionError (IndexOutOfBound env seq idx))
      \<and> (\<forall>c \<in> set (snd (getitem cat get_size getitem_impl (env, seq, idx))). c = GetSize env seq))
   \<and> (\<forall>seqs. map_of cat env = Some seqs \<and> seq \<in> set seqs
         \<and> 0 \<le> idx \<and> idx < get_size env seq \<longrightarrow>
      (\<exists>items. fst (getitem cat get_size getitem_impl (env, seq, idx)) = Inr (PyTuple items)
          \<and> items \<noteq> []
          \<and> last items = PyTuple [PyStr env, PyStr seq, PyInt idx]
          \<and> butlast items = as_tuple (getitem_impl env seq idx))
      \<and> snd (getitem cat get_size getitem_impl (env, seq, idx))
           = [GetSize env seq, GetItemImpl env seq idx])"
  by (auto simp: getitem_def)

theorem getitem_validation_witness:
  "getitem scenario_catalog scenario_size (\<lambda>e s i. PyStr ''frame'' :: unit pyval) (''envX'', ''s1'', 0)
     = (Inl (AssertionError (NoSuchEnvironment ''envX'')), [])
   \<and> getitem scenario_catalog scenario_size (\<lambda>e s i. PyStr ''frame'' :: unit pyval) (''envA'', ''s3'', 0)
     = (Inl (AssertionError (NoSuchSequence ''envA'' ''s3'')), [])
   \<and> fst (getitem scenario_catalog scenario_size (\<lambda>e s i. PyStr ''frame'' :: unit pyval) (''envA'', ''s1'', 5))
     = Inl (AssertionError (IndexOutOfBound ''envA'' ''s1'' 5))
   \<and> fst (getitem scenario_catalog scenario_size (\<lambda>e s i. PyStr ''frame'' :: unit pyval) (''envA'', ''s1'', 4))
     = Inr (PyTuple [PyStr ''frame'', PyTuple [PyStr ''envA'', PyStr ''s1'', PyInt 4]])"
proof -
  have m0: "map_of scenario_catalog ''envX'' = None"
    and m1: "map_of scenario_catalog ''envA'' = Some [''s1'', ''s2'']"
    by (simp_all add: scenario_catalog_def)
  have s3: "''s3'' \<notin> set [''s1'', ''s2'']" and s1: "''s1'' \<in> set [''s1'', ''s2'']" by simp_all
  have z: "scenario_size ''envA'' ''s1'' = 5" by (simp add: scenario_size_def)
  note T = getitem_validation [of scenario_catalog _ scenario_size "\<lambda>e s i. PyStr ''frame'' :: unit pyval"]
  have a: "getitem scenario_catalog scenario_size (\<lambda>e s i. PyStr ''frame'' :: unit pyval) (''envX'', ''s1'', 0)
     = (Inl (AssertionError (NoSuchEnvironment ''envX'')), [])"
    using T [of "''envX''" "''s1''" 0] m0 by blast
  have b: "getitem scenario_catalog scenario_size (\<lambda>e s i. PyStr ''frame'' :: unit pyval) (''envA'', ''s3'', 0)
     = (Inl (AssertionError (NoSuchSequence ''envA'' ''s3'')), [])"
    using T [of "''envA''" "''s3''" 0] m1 s3 by blast
  have c: "fst (getitem scenario_catalog scenario_size (\<lambda>e s i. PyStr ''frame'' :: unit pyval) (''envA'', ''s1'', 5))
     = Inl (AssertionError (IndexOutOfBound ''envA'' ''s1'' 5))"
    using T [of "''envA''" "''s1''" 5] m1 s1 z by simp
  have "\<exists>items. fst (getitem scenario_catalog scenario_size (\<lambda>e s i. PyStr ''frame'' :: unit pyval) (''envA'', ''s1'', 4)) = Inr (PyTuple items)
          \<and> items \<noteq> []
          \<and> last items = PyTuple [PyStr ''envA'', PyStr ''s1'', PyInt 4]
          \<and> butlast items = as_tuple (PyStr ''frame'' :: unit pyval)"
    using T [of "''envA''" "''s1''" 4] m1 s1 z by simp
  then obtain items where i: "fst (getitem scenario_catalog scenario_size (\<lambda>e s i. PyStr ''frame'' :: unit pyval) (''envA'', ''s1'', 4)) = Inr (PyTuple items)"
    "items \<noteq> []" "last items = PyTuple [PyStr ''envA'', PyStr ''s1'', PyInt 4]"
    "butlast items = [PyStr ''frame'']"
    by (auto simp: as_tuple_def)
  from i(2-4) have "items = [PyStr ''frame'', PyTuple [PyStr ''envA'', PyStr ''s1'', PyInt 4]]"
    by (metis append_butlast_last_id append_Cons append_Nil)
  with a b c i(1) show ?thesis by simp
qed

lemma filter_other_keys:
  "k \<notin> fst ` set A \<Longrightarrow> filter (\<lambda>(ka, v). ka \<noteq> k) A = A"
  by (induction A) auto

lemma map_other_keys:
  "k \<notin> fst ` set A \<Longrightarrow> map (\<lambda>(ka, v). if ka = k then (ka, w) else (ka, v)) A = A"
  by (induction A) auto

lemma map_of_middle:
  "k \<notin> fst ` set A \<Longrightarrow> map_of (A @ (k, v) # C) k = Some v"
  by (induction A) auto

lemma dict_pop_middle:
  "k \<notin> fst ` set A \<Longrightarrow> k \<notin> fst ` set C \<Longrightarrow> dict_pop (A @ (k, v) # C) k = A @ C"
  by (simp add: dict_pop_def filter_other_keys)

lemma dict_set_middle:
  "k \<notin> fst ` set A \<Longrightarrow> k \<notin> fst ` set C \<Longrightarrow> dict_set (A @ (k, v) # C) k w = A @ (k, w) # C"
  by (simp add: dict_set_def map_other_keys)

lemma remove_seq_middle:
  assumes "k \<notin> fst ` set A" "k \<notin> fst ` set C" "s \<notin> set L1"
  shows "remove_seq (A @ (k, L1 @ s # L2) # C) k s =
         Inr (A @ (if L1 @ L2 = [] then [] else [(k, L1 @ L2)]) @ C)"
proof -
  have "remove1 s (L1 @ s # L2) = L1 @ L2"
    using assms(3) by (simp add: remove1_append)
  then have lr: "list_remove s (L1 @ s # L2) = Inr (L1 @ L2)"
    by (simp add: list_remove_def)
  have m: "map_of (A @ (k, L1 @ s # L2) # C) k = Some (L1 @ s # L2)"
    using assms(1) by (rule map_of_middle)
  have "remove_seq (A @ (k, L1 @ s # L2) # C) k s =
      Inr (if L1 @ L2 = [] then A @ C else A @ (k, L1 @ L2) # C)"
    by (simp only: remove_seq_def m lr option.case sum.case
        dict_pop_middle [OF assms(1,2)] dict_set_middle [OF assms(1,2)])
  then show ?thesis by simp
qed

lemma include_exclude_loop_entry:
  fixes rej :: "seq_id \<Rightarrow> bool"
  assumes "k \<notin> fst ` set A" "k \<notin> fst ` set C"
    and "\<And>s. rej s = rejected re_search incl excl (get_seq_id k s)"
  shows "include_exclude_loop re_search incl excl (map (Pair k) suf @ rest)
           (A @ (if pre \<noteq> [] \<and> filter (\<lambda>s. \<not> rej s) pre @ suf = [] then []
                 else [(k, filter (\<lambda>s. \<not> rej s) pre @ suf)]) @ C)
       = include_exclude_loop re_search incl excl rest
           (A @ (if pre @ suf \<noteq> [] \<and> filter (\<lambda>s. \<not> rej s) (pre @ suf) = [] then []
                 else [(k, filter (\<lambda>s. \<not> rej s) (pre @ suf))]) @ C)"
proof (induction suf arbitrary: pre)
  case Nil
  show ?case by simp
next
  case (Cons s suf)
  let ?L1 = "filter (\<lambda>s. \<not> rej s) pre"
  have st: "(if pre \<noteq> [] \<and> ?L1 @ s # suf = [] then [] else [(k, ?L1 @ s # suf)])
      = [(k, ?L1 @ s # suf)]" by simp
  show ?case
  proof (cases "rej s")
    case False
    have nxt: "(if pre @ [s] \<noteq> [] \<and> filter (\<lambda>s. \<not> rej s) (pre @ [s]) @ suf = [] then []
                 else [(k, filter (\<lambda>s. \<not> rej s) (pre @ [s]) @ suf)]) = [(k, ?L1 @ s # suf)]"
      using False by simp
    have "include_exclude_loop re_search incl excl (map (Pair k) (s # suf) @ rest)
           (A @ [(k, ?L1 @ s # suf)] @ C)
        = include_exclude_loop re_search incl excl (map (Pair k) suf @ rest)
           (A @ [(k, ?L1 @ s # suf)] @ C)"
      using False assms(3) [of s] by simp
    also have "\<dots> = include_exclude_loop re_search incl excl rest
           (A @ (if (pre @ [s]) @ suf \<noteq> [] \<and> filter (\<lambda>s. \<not> rej s) ((pre @ [s]) @ suf) = [] then []
                 else [(k, filter (\<lambda>s. \<not> rej s) ((pre @ [s]) @ suf))]) @ C)"
      using Cons.IH [of "pre @ [s]"] unfolding nxt .
    finally show ?thesis unfolding st by simp
  next
    case True
    have notin: "s \<notin> set ?L1" using True by simp
    have nxt: "(if pre @ [s] \<noteq> [] \<and> filter (\<lambda>s. \<not> rej s) (pre @ [s]) @ suf = [] then []
                 else [(k, filter (\<lambda>s. \<not> rej s) (pre @ [s]) @ suf)])
             = (if ?L1 @ suf = [] then [] else [(k, ?L1 @ suf)])"
      using True by simp
    have "include_exclude_loop re_search incl excl (map (Pair k) (s # suf) @ rest)
           (A @ [(k, ?L1 @ s # suf)] @ C)
        = include_exclude_loop re_search incl excl (map (Pair k) suf @ rest)
           (A @ (if ?L1 @ suf = [] then [] else [(k, ?L1 @ suf)]) @ C)"
      using True assms(3) [of s] remove_seq_middle [OF assms(1,2) notin, of suf]
      by simp
    also have "\<dots> = include_exclude_loop re_search incl excl rest
           (A @ (if (pre @ [s]) @ suf \<noteq> [] \<and> filter (\<lambda>s. \<not> rej s) ((pre @ [s]) @ suf) = [] then []
                 else [(k, filter (\<lambda>s. \<not> rej s) ((pre @ [s]) @ suf))]) @ C)"
      using Cons.IH [of "pre @ [s]"] unfolding nxt .
    finally show ?thesis unfolding st by simp
  qed
qed


lemma get_env_seqs_Cons:
  "get_env_seqs ((k, v) # C) = map (Pair k) v @ get_env_seqs C"
  by (simp add: get_env_seqs_def)

lemma include_exclude_loop_result:
  assumes "distinct (map fst (A @ C))"
  shows "include_exclude_loop re_search incl excl (get_env_seqs C) (A @ C) =
         Inr (A @ concat (map (\<lambda>(k, v).
                if v \<noteq> [] \<and> filter (\<lambda>s. \<not> rejected re_search incl excl (get_seq_id k s)) v = []
                then []
                else [(k, filter (\<lambda>s. \<not> rejected re_search incl excl (get_seq_id k s)) v)]) C))"
  using assms
proof (induction C arbitrary: A)
  case Nil
  then show ?case by (simp add: get_env_seqs_def)
next
  case (Cons kv C)
  obtain k v where kv: "kv = (k, v)" by (cases kv)
  let ?rej = "\<lambda>s. rejected re_search incl excl (get_seq_id k s)"
  let ?fin = "if v \<noteq> [] \<and> filter (\<lambda>s. \<not> ?rej s) v = [] then []
              else [(k, filter (\<lambda>s. \<not> ?rej s) v)]"
  from Cons.prems kv have kA: "k \<notin> fst ` set A" and kC: "k \<notin> fst ` set C" by auto
  have step: "include_exclude_loop re_search incl excl (get_env_seqs ((k, v) # C)) (A @ (k, v) # C)
       = include_exclude_loop re_search incl excl (get_env_seqs C) ((A @ ?fin) @ C)"
    using include_exclude_loop_entry [where rej = ?rej and pre = "[]" and suf = v
        and rest = "get_env_seqs C" and re_search = re_search and incl = incl and excl = excl,
        OF kA kC]
    by (simp add: get_env_seqs_Cons)
  have "distinct (map fst ((A @ ?fin) @ C))"
    using Cons.prems kv by auto
  from Cons.IH [OF this] step show ?case
    unfolding kv by simp
qed

lemma filtered_pairs:
  "get_env_seqs (concat (map (\<lambda>(k, v). if v \<noteq> [] \<and> filter (P k) v = [] then [] else [(k, filter (P k) v)]) cat))
   = filter (\<lambda>(k, s). P k s) (get_env_seqs cat)"
proof (induction cat)
  case Nil
  then show ?case by (simp add: get_env_seqs_def)
next
  case (Cons kv cat)
  obtain k v where kv: "kv = (k, v)" by (cases kv)
  have "filter (\<lambda>(k, s). P k s) (map (Pair k) v) = map (Pair k) (filter (P k) v)"
    by (induction v) auto
  then show ?case using Cons
    by (auto simp: kv get_env_seqs_Cons get_env_seqs_def)
qed

lemma filtered_pruned:
  "catalog_pruned cat \<Longrightarrow>
   catalog_pruned (concat (map (\<lambda>(k, v). if v \<noteq> [] \<and> filter (P k) v = [] then [] else [(k, filter (P k) v)]) cat))"
  by (induction cat) (auto simp: catalog_pruned_def)

lemma filtered_keys:
  "map fst (concat (map (\<lambda>(k, v). if v \<noteq> [] \<and> filter (P k) v = [] then [] else [(k, filter (P k) v)]) cat))
   = map fst (filter (\<lambda>(k, v). \<not> (v \<noteq> [] \<and> filter (P k) v = [])) cat)"
  by (induction cat) auto

lemma filtered_keys_ok:
  "dict_keys_ok cat \<Longrightarrow>
   dict_keys_ok (concat (map (\<lambda>(k, v). if v \<noteq> [] \<and> filter (P k) v = [] then [] else [(k, filter (P k) v)]) cat))"
  unfolding dict_keys_ok_def filtered_keys by (rule distinct_map_filter)

lemma rejected_survives:
  assumes "compile_opt re_compile include = Inr incl" "compile_opt re_compile exclude = Inr excl"
  shows "(\<not> rejected re_search incl excl (get_seq_id k s))
         = survives re_compile re_search include exclude (k, s)"
  using assms
  by (auto simp: compile_opt_def rejected_def survives_def re_matches_def
      split: option.splits)


lemma include_exclude_result:
  assumes "dict_keys_ok cat"
    and "compile_opt re_compile include = Inr incl" "compile_opt re_compile exclude = Inr excl"
  shows "include_exclude re_compile re_search include exclude cat =
         Inr (concat (map (\<lambda>(k, v).
                if v \<noteq> [] \<and> filter (\<lambda>s. \<not> rejected re_search incl excl (get_seq_id k s)) v = []
                then []
                else [(k, filter (\<lambda>s. \<not> rejected re_search incl excl (get_seq_id k s)) v)]) cat))"
  using include_exclude_loop_result [of "[]" cat re_search incl excl] assms
  by (simp add: include_exclude_def dict_keys_ok_def)

lemma compile_opt_total:
  "(\<forall>pat. x = Some pat \<longrightarrow> re_compile pat \<noteq> None) \<Longrightarrow> \<exists>p. compile_opt re_compile x = Inr p"
  by (cases x) (auto simp: compile_opt_def)

text \<open>
  Claim C6. For a catalog with distinct keys (a dict) and all optional patterns:
  \<open>include_exclude\<close> returns whenever the given patterns compile, and after it returns
  the remaining pairs are exactly the pairs of the catalog, in order, whose key
  \<open>env + "_" + seq\<close> matches the include pattern (if given) and does not match the
  exclude pattern (if given); the keys stay distinct, and if no environment mapped to an
  empty list before the call (the invariant of the data model), none does after it.
\<close>

theorem include_exclude_filters:
  assumes "dict_keys_ok cat"
  shows "((\<forall>pat. include = Some pat \<longrightarrow> re_compile pat \<noteq> None)
            \<and> (\<forall>pat. exclude = Some pat \<longrightarrow> re_compile pat \<noteq> None)
          \<longrightarrow> (\<exists>cat'. include_exclude re_compile re_search include exclude cat = Inr cat'))
       \<and> (\<forall>cat'. include_exclude re_compile re_search include exclude cat = Inr cat' \<longrightarrow>
             get_env_seqs cat' = filter (survives re_compile re_search include exclude) (get_env_seqs cat)
           \<and> (\<forall>(env, seq) \<in> set (get_env_seqs cat').
                 (\<forall>pat. include = Some pat \<longrightarrow>
                    re_matches re_compile re_search pat (get_seq_id env seq))
               \<and> (\<forall>pat. exclude = Some pat \<longrightarrow>
                    \<not> re_matches re_compile re_search pat (get_seq_id env seq)))
           \<and> dict_keys_ok cat'
           \<and> (catalog_pruned cat \<longrightarrow> catalog_pruned cat'))"
proof (intro conjI allI impI)
  assume c: "(\<forall>pat. include = Some pat \<longrightarrow> re_compile pat \<noteq> None)
            \<and> (\<forall>pat. exclude = Some pat \<longrightarrow> re_compile pat \<noteq> None)"
  then obtain incl excl where
    "compile_opt re_compile include = Inr incl" "compile_opt re_compile exclude = Inr excl"
    using compile_opt_total [of "include" re_compile] compile_opt_total [of exclude re_compile]
    by blast
  from include_exclude_result [OF assms this]
  show "\<exists>cat'. include_exclude re_compile re_search include exclude cat = Inr cat'" by blast
next
  fix cat'
  assume r: "include_exclude re_compile re_search include exclude cat = Inr cat'"
  then obtain incl excl where
    co: "compile_opt re_compile include = Inr incl" "compile_opt re_compile exclude = Inr excl"
    by (auto simp: include_exclude_def split: sum.splits)
  let ?P = "\<lambda>k s. \<not> rejected re_search incl excl (get_seq_id k s)"
  from include_exclude_result [OF assms co, of re_search] r
  have cat': "cat' = concat (map (\<lambda>(k, v). if v \<noteq> [] \<and> filter (?P k) v = [] then []
                else [(k, filter (?P k) v)]) cat)"
    by simp
  have P: "(\<lambda>(k, s). ?P k s) = survives re_compile re_search include exclude"
    using rejected_survives [OF co] by auto
  show pairs: "get_env_seqs cat' = filter (survives re_compile re_search include exclude) (get_env_seqs cat)"
    unfolding cat' filtered_pairs P ..
  show "\<forall>(env, seq) \<in> set (get_env_seqs cat').
                 (\<forall>pat. include = Some pat \<longrightarrow>
                    re_matches re_compile re_search pat (get_seq_id env seq))
               \<and> (\<forall>pat. exclude = Some pat \<longrightarrow>
                    \<not> re_matches re_compile re_search pat (get_seq_id env seq))"
    unfolding pairs by (auto simp: survives_def)
  show "dict_keys_ok cat'"
    unfolding cat' using assms by (rule filtered_keys_ok)
  show "catalog_pruned cat'" if "catalog_pruned cat"
    unfolding cat' using that by (rule filtered_pruned)
qed

theorem include_exclude_filters_witness:
  "dict_keys_ok scenario_catalog
   \<and> include_exclude (\<lambda>x. Some x) (\<lambda>p s. take (length p) s = p) (Some ''envA'') (Some ''envA_s2'')
       scenario_catalog = Inr [(''envA'', [''s1''])]
   \<and> get_env_seqs [(''envA'', [''s1''])] =
       filter (survives (\<lambda>x. Some x) (\<lambda>p s. take (length p) s = p) (Some ''envA'') (Some ''envA_s2''))
         (get_env_seqs scenario_catalog)
   \<and> catalog_pruned [(''envA'', [''s1''])]"
proof -
  have d: "dict_keys_ok scenario_catalog" by code_simp
  have p: "catalog_pruned scenario_catalog" by code_simp
  have e: "include_exclude (\<lambda>x. Some x) (\<lambda>p s. take (length p) s = p) (Some ''envA'') (Some ''envA_s2'')
       scenario_catalog = Inr [(''envA'', [''s1''])]" by code_simp
  from include_exclude_filters [OF d, of "Some ''envA''" "\<lambda>x. Some x" "Some ''envA_s2''"
      "\<lambda>p s. take (length p) s = p"] e p
  have "get_env_seqs [(''envA'', [''s1''])] =
       filter (survives (\<lambda>x. Some x) (\<lambda>p s. take (length p) s = p) (Some ''envA'') (Some ''envA_s2''))
         (get_env_seqs scenario_catalog) \<and> catalog_pruned [(''envA'', [''s1''])]"
    by blast
  with d e show ?thesis by blast
qed

section \<open>Lemmas about \<open>rand_split\<close>\<close>










lemma permutation_mset: "mset (permutation gen g n) = mset [0..<n]"
  by (simp add: permutation_def shuffle_mset)

lemma setdefault_append_mset:
  "mset (get_env_seqs (setdefault_append cat p)) = mset (get_env_seqs cat) + {#p#}"
proof (induction cat p rule: setdefault_append.induct)
  case (1 env seq)
  show ?case by (simp add: get_env_seqs_def)
next
  case (2 k v rest env seq)
  then show ?case by (simp add: get_env_seqs_Cons)
qed

lemma foldl_setdefault_append_mset:
  "mset (get_env_seqs (foldl setdefault_append cat pairs)) = mset (get_env_seqs cat) + mset pairs"
  by (induction pairs arbitrary: cat) (simp_all add: setdefault_append_mset)

lemma build_seqs_mset: "mset (get_env_seqs (build_seqs pairs)) = mset pairs"
  using foldl_setdefault_append_mset [of "[]" pairs]
  by (simp add: build_seqs_def get_env_seqs_def)

lemma subset_seqs_ok:
  assumes "\<forall>i \<in> set piece. i < length env_seqs"
  shows "subset_seqs env_seqs piece = Inr (build_seqs (map (\<lambda>i. env_seqs ! i) (sort piece)))"
  using assms by (simp add: subset_seqs_def np_take_def list_all_iff)

lemma subset_seqs_pairs:
  assumes "subset_seqs env_seqs piece = Inr c"
  shows "mset (get_env_seqs c) = image_mset (\<lambda>i. env_seqs ! i) (mset piece)"
proof -
  from assms have "c = build_seqs (map (\<lambda>i. env_seqs ! i) (sort piece))"
    by (auto simp: subset_seqs_def np_take_def split: if_splits)
  then show ?thesis by (simp add: build_seqs_mset)
qed

lemma make_subset_eq:
  "make_subset h attrs c =
     (length h, h @ [Instance (setattr attrs ''_seqs'' (Suc (length h))), Mapping c])"
  by (simp add: make_subset_def alloc_def list_update_append nth_append)

lemma setattr_lookup:
  "map_of (setattr attrs a r) b = (if b = a then Some r else map_of attrs b)"
proof (cases "a \<in> set (map fst attrs)")
  case True
  have "map_of (map (\<lambda>(k, v). if k = a then (k, r) else (k, v)) attrs) b
        = (if b = a then map_option (\<lambda>_. r) (map_of attrs a) else map_of attrs b)"
    by (induction attrs) auto
  moreover from True obtain v where "map_of attrs a = Some v"
    by (cases "map_of attrs a") (simp_all add: map_of_eq_None_iff)
  ultimately show ?thesis using True by (simp add: setattr_def)
next
  case False
  then have "map_of attrs a = None" by (simp add: map_of_eq_None_iff)
  then have "map_of (attrs @ [(a, r)]) b = (if b = a then Some r else map_of attrs b)"
    by (simp add: map_add_def split: option.splits)
  with False show ?thesis by (simp add: setattr_def)
qed

lemma subsets_loop_shape:
  assumes "subsets_loop h attrs env_seqs pieces = Inr (subs, h')"
  shows "subs = map (\<lambda>i. length h + 2 * i) [0..<length pieces]
       \<and> length h' = length h + 2 * length pieces
       \<and> take (length h) h' = h
       \<and> (\<forall>i < length pieces.
             h' ! (length h + 2 * i) = Instance (setattr attrs ''_seqs'' (length h + 2 * i + 1))
           \<and> (\<exists>c. subset_seqs env_seqs (pieces ! i) = Inr c
                  \<and> h' ! (length h + 2 * i + 1) = Mapping c))"
  using assms
proof (induction pieces arbitrary: h subs)
  case Nil
  then show ?case by simp
next
  case (Cons p pieces)
  from Cons.prems obtain c where c: "subset_seqs env_seqs p = Inr c"
    by (auto split: sum.splits)
  define h1 where "h1 = h @ [Instance (setattr attrs ''_seqs'' (Suc (length h))), Mapping c]"
  from Cons.prems c obtain subs' where
    rest: "subsets_loop h1 attrs env_seqs pieces = Inr (subs', h')" and subs: "subs = length h # subs'"
    by (auto simp: make_subset_eq h1_def split: sum.splits)
  have len1: "length h1 = length h + 2" by (simp add: h1_def)
  from Cons.IH [OF rest] have
    s': "subs' = map (\<lambda>i. length h1 + 2 * i) [0..<length pieces]"
    and l': "length h' = length h1 + 2 * length pieces"
    and t': "take (length h1) h' = h1"
    and n': "\<forall>i < length pieces.
             h' ! (length h1 + 2 * i) = Instance (setattr attrs ''_seqs'' (length h1 + 2 * i + 1))
           \<and> (\<exists>c. subset_seqs env_seqs (pieces ! i) = Inr c
                  \<and> h' ! (length h1 + 2 * i + 1) = Mapping c)"
    by blast+
  have pre: "h' ! r = h1 ! r" if "r < length h1" for r
    using t' that by (metis nth_take)
  have a: "subs = map (\<lambda>i. length h + 2 * i) [0..<length (p # pieces)]"
    unfolding subs s' len1
    by (simp add: upt_conv_Cons map_Suc_upt [symmetric] del: upt_Suc)
  have b: "length h' = length h + 2 * length (p # pieces)"
    using l' len1 by simp
  have c': "take (length h) h' = h"
  proof -
    have "take (length h) h' = take (length h) (take (length h1) h')"
      by (simp add: len1 min_def)
    then show ?thesis unfolding t' by (simp add: h1_def)
  qed
  have d: "h' ! (length h + 2 * i) = Instance (setattr attrs ''_seqs'' (length h + 2 * i + 1))
           \<and> (\<exists>c. subset_seqs env_seqs ((p # pieces) ! i) = Inr c
                  \<and> h' ! (length h + 2 * i + 1) = Mapping c)"
    if "i < length (p # pieces)" for i
  proof (cases i)
    case 0
    have "h' ! length h = h1 ! length h" "h' ! Suc (length h) = h1 ! Suc (length h)"
      by (rule pre, simp add: len1)+
    then show ?thesis using c 0 by (simp add: h1_def nth_append)
  next
    case (Suc j)
    with that have "j < length pieces" by simp
    with n' have "h' ! (length h1 + 2 * j) = Instance (setattr attrs ''_seqs'' (length h1 + 2 * j + 1))
           \<and> (\<exists>c. subset_seqs env_seqs (pieces ! j) = Inr c
                  \<and> h' ! (length h1 + 2 * j + 1) = Mapping c)" by blast
    then show ?thesis unfolding len1 Suc by (simp add: add.assoc)
  qed
  from a b c' d show ?case by blast
qed

lemma subsets_loop_total:
  assumes "\<forall>p \<in> set pieces. \<exists>c. subset_seqs env_seqs p = Inr c"
  shows "\<exists>subs h'. subsets_loop h attrs env_seqs pieces = Inr (subs, h')"
  using assms
proof (induction pieces arbitrary: h)
  case Nil
  then show ?case by simp
next
  case (Cons p pieces)
  from Cons.prems obtain c where c: "subset_seqs env_seqs p = Inr c" by auto
  obtain s h1 where m: "make_subset h attrs c = (s, h1)" by (cases "make_subset h attrs c")
  from Cons.IH [of h1] Cons.prems obtain subs h' where
    "subsets_loop h1 attrs env_seqs pieces = Inr (subs, h')" by auto
  with c m show ?case by simp
qed

lemma py_slice_subset: "set (py_slice xs a b) \<subseteq> set xs"
  by (auto simp: py_slice_def Let_def dest: in_set_takeD in_set_dropD)

lemma np_split_subset: "p \<in> set (np_split xs idx) \<Longrightarrow> set p \<subseteq> set xs"
  using py_slice_subset by (fastforce simp: np_split_def)

lemma seqs_of_cases:
  assumes "seqs_of h self = Inr cat"
  shows "\<exists>attrs m. deref h self = Some (Instance attrs) \<and> map_of attrs ''_seqs'' = Some m
           \<and> deref h m = Some (Mapping cat)"
  using assms by (auto simp: seqs_of_def split: option.splits obj.splits)

lemma seqs_of_intro:
  assumes "deref h s = Some (Instance attrs)" "map_of attrs ''_seqs'' = Some m"
    "deref h m = Some (Mapping cat)"
  shows "seqs_of h s = Inr cat"
  using assms by (simp add: seqs_of_def)

lemma rand_split_unfold:
  assumes "seqs_of h self = Inr cat" "deref h self = Some (Instance attrs)"
  shows "rand_split gen default_rng portion ratio seed h self =
         subsets_loop h attrs (get_env_seqs cat)
           (np_split (permutation gen (default_rng seed) (length (get_env_seqs cat)))
              (split_points portion ratio (length (get_env_seqs cat))))"
  using assms by (simp add: rand_split_def)

lemma pieces_in_range:
  assumes "p \<in> set (np_split (permutation gen g n) idx)"
  shows "\<forall>i \<in> set p. i < n"
proof -
  have "set (permutation gen g n) = {0..<n}"
    using permutation_mset [of gen g n] by (metis mset_eq_setD set_upt)
  with np_split_subset [OF assms] show ?thesis by auto
qed

lemma rand_split_result:
  fixes gen :: "'g \<Rightarrow> nat \<times> 'g" and default_rng :: "int \<Rightarrow> 'g" and seed :: int
    and portion :: "'q list \<Rightarrow> nat \<Rightarrow> 'q \<Rightarrow> int" and ratio :: "'q list"
  assumes "seqs_of h self = Inr cat" "deref h self = Some (Instance attrs)"
  defines "pieces \<equiv> np_split (permutation gen (default_rng seed) (length (get_env_seqs cat)))
              (split_points portion ratio (length (get_env_seqs cat)))"
  shows "\<exists>subs h'. rand_split gen default_rng portion ratio seed h self = Inr (subs, h')
       \<and> subs = map (\<lambda>i. length h + 2 * i) [0..<length pieces]
       \<and> length h' = length h + 2 * length pieces
       \<and> take (length h) h' = h
       \<and> (\<forall>i < length pieces.
             h' ! (length h + 2 * i) = Instance (setattr attrs ''_seqs'' (length h + 2 * i + 1))
           \<and> h' ! (length h + 2 * i + 1) =
               Mapping (build_seqs (map (\<lambda>j. get_env_seqs cat ! j) (sort (pieces ! i)))))"
proof -
  have ok: "subset_seqs (get_env_seqs cat) p =
        Inr (build_seqs (map (\<lambda>j. get_env_seqs cat ! j) (sort p)))" if "p \<in> set pieces" for p
    using that unfolding pieces_def by (intro subset_seqs_ok pieces_in_range)
  then have "\<forall>p \<in> set pieces. \<exists>c. subset_seqs (get_env_seqs cat) p = Inr c" by blast
  from subsets_loop_total [OF this, of h attrs] obtain subs h' where
    r: "subsets_loop h attrs (get_env_seqs cat) pieces = Inr (subs, h')" by blast
  from subsets_loop_shape [OF r] ok
  have "subs = map (\<lambda>i. length h + 2 * i) [0..<length pieces]
       \<and> length h' = length h + 2 * length pieces
       \<and> take (length h) h' = h
       \<and> (\<forall>i < length pieces.
             h' ! (length h + 2 * i) = Instance (setattr attrs ''_seqs'' (length h + 2 * i + 1))
           \<and> h' ! (length h + 2 * i + 1) =
               Mapping (build_seqs (map (\<lambda>j. get_env_seqs cat ! j) (sort (pieces ! i)))))"
    by (auto simp: nth_mem)
  moreover have "rand_split gen default_rng portion ratio seed h self = Inr (subs, h')"
    using rand_split_unfold [OF assms(1,2), where gen = gen and default_rng = default_rng
        and seed = seed and portion = portion and ratio = ratio] r
    unfolding pieces_def by simp
  ultimately show ?thesis by blast
qed

lemma rand_split_seqs:
  fixes gen :: "'g \<Rightarrow> nat \<times> 'g" and default_rng :: "int \<Rightarrow> 'g" and seed :: int
    and portion :: "'q list \<Rightarrow> nat \<Rightarrow> 'q \<Rightarrow> int" and ratio :: "'q list"
  assumes "seqs_of h self = Inr cat"
  defines "pieces \<equiv> np_split (permutation gen (default_rng seed) (length (get_env_seqs cat)))
              (split_points portion ratio (length (get_env_seqs cat)))"
  shows "\<exists>subs h'. rand_split gen default_rng portion ratio seed h self = Inr (subs, h')
       \<and> map (seqs_of h') subs =
           map (\<lambda>p. Inr (build_seqs (map (\<lambda>j. get_env_seqs cat ! j) (sort p)))) pieces
       \<and> (\<forall>r < length h. deref h' r = deref h r)
       \<and> seqs_of h' self = Inr cat"
proof -
  from seqs_of_cases [OF assms(1)] obtain attrs m0 where
    a: "deref h self = Some (Instance attrs)" "map_of attrs ''_seqs'' = Some m0"
       "deref h m0 = Some (Mapping cat)" by blast
  from rand_split_result [OF assms(1) a(1), where gen = gen and default_rng = default_rng
        and seed = seed and portion = portion and ratio = ratio]
  obtain subs h' where
    r: "rand_split gen default_rng portion ratio seed h self = Inr (subs, h')"
    and subs: "subs = map (\<lambda>i. length h + 2 * i) [0..<length pieces]"
    and len: "length h' = length h + 2 * length pieces"
    and pre: "take (length h) h' = h"
    and new: "\<forall>i < length pieces.
             h' ! (length h + 2 * i) = Instance (setattr attrs ''_seqs'' (length h + 2 * i + 1))
           \<and> h' ! (length h + 2 * i + 1) =
               Mapping (build_seqs (map (\<lambda>j. get_env_seqs cat ! j) (sort (pieces ! i))))"
    unfolding pieces_def by blast
  have old: "deref h' r = deref h r" if "r < length h" for r
  proof -
    have "h' ! r = take (length h) h' ! r" using that by simp
    with pre that len show ?thesis by (simp add: deref_def)
  qed
  have self: "seqs_of h' self = Inr cat"
  proof -
    from a(1,3) have "self < length h" "m0 < length h"
      by (auto simp: deref_def split: if_splits)
    with old a show ?thesis by (intro seqs_of_intro [where attrs = attrs and m = m0]) simp_all
  qed
  have "seqs_of h' (subs ! i) =
        Inr (build_seqs (map (\<lambda>j. get_env_seqs cat ! j) (sort (pieces ! i))))"
    if "i < length pieces" for i
  proof -
    have si: "subs ! i = length h + 2 * i" using that by (simp add: subs)
    from new that have
      n1: "h' ! (length h + 2 * i) = Instance (setattr attrs ''_seqs'' (length h + 2 * i + 1))"
      and n2: "h' ! (length h + 2 * i + 1) =
               Mapping (build_seqs (map (\<lambda>j. get_env_seqs cat ! j) (sort (pieces ! i))))"
      by blast+
    have lt: "length h + 2 * i < length h'" "length h + 2 * i + 1 < length h'"
      using that len by simp_all
    have d1: "deref h' (subs ! i) = Some (Instance (setattr attrs ''_seqs'' (length h + 2 * i + 1)))"
      unfolding si deref_def using lt(1) n1 by (simp only: if_True simp_thms)
    have d2: "deref h' (length h + 2 * i + 1) =
        Some (Mapping (build_seqs (map (\<lambda>j. get_env_seqs cat ! j) (sort (pieces ! i)))))"
      unfolding deref_def using lt(2) n2 by (simp only: if_True simp_thms)
    have d3: "map_of (setattr attrs ''_seqs'' (length h + 2 * i + 1)) ''_seqs'' = Some (length h + 2 * i + 1)"
      by (simp only: setattr_lookup if_True simp_thms)
    from d1 d3 d2 show ?thesis by (rule seqs_of_intro)
  qed
  note each = this
  have len_s: "length subs = length pieces" by (simp add: subs)
  have "map (seqs_of h') subs =
           map (\<lambda>p. Inr (build_seqs (map (\<lambda>j. get_env_seqs cat ! j) (sort p)))) pieces"
  proof (rule nth_equalityI)
    show "length (map (seqs_of h') subs) =
        length (map (\<lambda>p. Inr (build_seqs (map (\<lambda>j. get_env_seqs cat ! j) (sort p)))) pieces)"
      by (simp only: length_map len_s)
  next
    fix i assume "i < length (map (seqs_of h') subs)"
    then have i: "i < length pieces" by (simp only: length_map len_s)
    then have "i < length subs" by (simp only: len_s)
    with i each [OF i] show "map (seqs_of h') subs ! i =
        map (\<lambda>p. Inr (build_seqs (map (\<lambda>j. get_env_seqs cat ! j) (sort p)))) pieces ! i"
      by (simp only: nth_map)
  qed
  with r old self show ?thesis by blast
qed

section \<open>The claims about \<open>rand_split\<close>\<close>

text \<open>
  Claim C4. The catalogs of the subsets depend on the receiver's catalog, the ratios and
  the seed only. Two calls with the same ratios and seed on receivers holding the same
  catalog, in any two stores, both return, with the same number of subsets, and the
  \<open>i\<close>-th subsets hold equal catalog mappings: the same environments in the same
  order, each with the same sequence list. In particular a second call on the store left
  by the first one gives the same subsets again.
\<close>

theorem rand_split_deterministic:
  fixes gen :: "'g \<Rightarrow> nat \<times> 'g" and default_rng :: "int \<Rightarrow> 'g" and seed :: int
    and portion :: "'q list \<Rightarrow> nat \<Rightarrow> 'q \<Rightarrow> int" and ratio :: "'q list"
  assumes "seqs_of h1 self1 = Inr cat" and "seqs_of h2 self2 = Inr cat"
  shows "\<exists>subs1 h1' subs2 h2'.
           rand_split gen default_rng portion ratio seed h1 self1 = Inr (subs1, h1')
         \<and> rand_split gen default_rng portion ratio seed h2 self2 = Inr (subs2, h2')
         \<and> map (seqs_of h1') subs1 = map (seqs_of h2') subs2
         \<and> (\<exists>subs3 h3. rand_split gen default_rng portion ratio seed h1' self1 = Inr (subs3, h3)
               \<and> map (seqs_of h3) subs3 = map (seqs_of h1') subs1)"
proof -
  note R = rand_split_seqs [where gen = gen and default_rng = default_rng
        and seed = seed and portion = portion and ratio = ratio]
  from R [OF assms(1)] obtain subs1 h1' where
    r1: "rand_split gen default_rng portion ratio seed h1 self1 = Inr (subs1, h1')"
    and c1: "map (seqs_of h1') subs1 =
           map (\<lambda>p. Inr (build_seqs (map (\<lambda>j. get_env_seqs cat ! j) (sort p))))
             (np_split (permutation gen (default_rng seed) (length (get_env_seqs cat)))
              (split_points portion ratio (length (get_env_seqs cat))))"
    and s1: "seqs_of h1' self1 = Inr cat" by blast
  from R [OF assms(2)] obtain subs2 h2' where
    r2: "rand_split gen default_rng portion ratio seed h2 self2 = Inr (subs2, h2')"
    and c2: "map (seqs_of h2') subs2 =
           map (\<lambda>p. Inr (build_seqs (map (\<lambda>j. get_env_seqs cat ! j) (sort p))))
             (np_split (permutation gen (default_rng seed) (length (get_env_seqs cat)))
              (split_points portion ratio (length (get_env_seqs cat))))"
    by blast
  from R [OF s1] obtain subs3 h3 where
    r3: "rand_split gen default_rng portion ratio seed h1' self1 = Inr (subs3, h3)"
    and c3: "map (seqs_of h3) subs3 =
           map (\<lambda>p. Inr (build_seqs (map (\<lambda>j. get_env_seqs cat ! j) (sort p))))
             (np_split (permutation gen (default_rng seed) (length (get_env_seqs cat)))
              (split_points portion ratio (length (get_env_seqs cat))))"
    by blast
  from c1 c2 have e12: "map (seqs_of h1') subs1 = map (seqs_of h2') subs2" by (rule trans [OF _ sym])
  from c3 c1 have e31: "map (seqs_of h3) subs3 = map (seqs_of h1') subs1" by (rule trans [OF _ sym])
  from r1 r2 e12 r3 e31 show ?thesis by blast
qed

theorem rand_split_deterministic_witness:
  "seqs_of scenario_heap 0 = Inr scenario_catalog
   \<and> seqs_of [Mapping scenario_catalog, Instance [(''_seqs'', 0)] :: unit obj] 1 = Inr scenario_catalog
   \<and> (\<exists>subs1 h1' subs2 h2'.
           rand_split gen_zero nat (\<lambda>ratio n r. int r) [2::nat, 1] 42 scenario_heap 0 = Inr (subs1, h1')
         \<and> rand_split gen_zero nat (\<lambda>ratio n r. int r) [2::nat, 1] 42
              [Mapping scenario_catalog, Instance [(''_seqs'', 0)] :: unit obj] 1 = Inr (subs2, h2')
         \<and> map (seqs_of h1') subs1 = map (seqs_of h2') subs2
         \<and> (\<exists>subs3 h3. rand_split gen_zero nat (\<lambda>ratio n r. int r) [2::nat, 1] 42 h1' 0 = Inr (subs3, h3)
               \<and> map (seqs_of h3) subs3 = map (seqs_of h1') subs1))"
proof -
  have a: "seqs_of scenario_heap 0 = Inr scenario_catalog" by code_simp
  have b: "seqs_of [Mapping scenario_catalog, Instance [(''_seqs'', 0)] :: unit obj] 1 = Inr scenario_catalog"
    by code_simp
  from rand_split_deterministic [OF a b, where gen = gen_zero and default_rng = nat
      and portion = "\<lambda>ratio n r. int r" and ratio = "[2::nat, 1]" and seed = 42] a b
  show ?thesis by (intro conjI)
qed

lemma fresh_addresses_distinct:
  "distinct (map (\<lambda>i. n + 2 * i) [0..<k] @ map Suc (map (\<lambda>i. n + 2 * i) [0..<k]))"
proof -
  have "distinct (map (\<lambda>i. n + 2 * i) [0..<k])"
    by (simp add: distinct_map inj_on_def)
  moreover have "distinct (map Suc (map (\<lambda>i. n + 2 * i) [0..<k]))"
    by (simp add: distinct_map inj_on_def)
  moreover have "n + 2 * i \<noteq> Suc (n + 2 * j)" for i j :: nat
    by presburger
  ultimately show ?thesis by (auto simp: distinct_append)
qed

text \<open>
  Claim C10. \<open>rand_split\<close> on a dataset object returns and leaves every object of
  the store as it was, the receiver and its catalog mapping among them. Each subset is a
  new instance at a fresh address; its \<open>_seqs\<close> attribute refers to a new mapping
  object at a fresh address of its own (all new addresses are pairwise distinct, so the
  mapping is neither the parent's nor a sibling's); every other attribute of the subset
  is the parent's attribute, that is the same address.
\<close>

theorem rand_split_frame:
  fixes gen :: "'g \<Rightarrow> nat \<times> 'g" and default_rng :: "int \<Rightarrow> 'g" and seed :: int
    and portion :: "'q list \<Rightarrow> nat \<Rightarrow> 'q \<Rightarrow> int" and ratio :: "'q list"
  assumes "seqs_of h self = Inr cat" and "deref h self = Some (Instance attrs)"
  shows "\<exists>subs h'. rand_split gen default_rng portion ratio seed h self = Inr (subs, h')
       \<and> (\<forall>r < length h. deref h' r = deref h r)
       \<and> seqs_of h' self = Inr cat
       \<and> distinct (subs @ map Suc subs)
       \<and> (\<forall>s \<in> set subs. length h \<le> s
            \<and> deref h' s = Some (Instance (setattr attrs ''_seqs'' (Suc s)))
            \<and> (\<exists>c. deref h' (Suc s) = Some (Mapping c))
            \<and> map_of (setattr attrs ''_seqs'' (Suc s)) ''_seqs'' = Some (Suc s)
            \<and> (\<forall>a. a \<noteq> ''_seqs'' \<longrightarrow> map_of (setattr attrs ''_seqs'' (Suc s)) a = map_of attrs a))"
proof -
  define pieces where "pieces = np_split (permutation gen (default_rng seed) (length (get_env_seqs cat)))
              (split_points portion ratio (length (get_env_seqs cat)))"
  from rand_split_result [OF assms, where gen = gen and default_rng = default_rng
        and seed = seed and portion = portion and ratio = ratio]
  obtain subs h' where
    r: "rand_split gen default_rng portion ratio seed h self = Inr (subs, h')"
    and subs: "subs = map (\<lambda>i. length h + 2 * i) [0..<length pieces]"
    and len: "length h' = length h + 2 * length pieces"
    and new: "\<forall>i < length pieces.
             h' ! (length h + 2 * i) = Instance (setattr attrs ''_seqs'' (length h + 2 * i + 1))
           \<and> h' ! (length h + 2 * i + 1) =
               Mapping (build_seqs (map (\<lambda>j. get_env_seqs cat ! j) (sort (pieces ! i))))"
    unfolding pieces_def by blast
  from rand_split_seqs [OF assms(1), where gen = gen and default_rng = default_rng
        and seed = seed and portion = portion and ratio = ratio] r
  have old: "\<forall>r < length h. deref h' r = deref h r" and self: "seqs_of h' self = Inr cat"
    by auto
  have d: "distinct (subs @ map Suc subs)"
    unfolding subs by (rule fresh_addresses_distinct)
  have each: "length h \<le> s
            \<and> deref h' s = Some (Instance (setattr attrs ''_seqs'' (Suc s)))
            \<and> (\<exists>c. deref h' (Suc s) = Some (Mapping c))
            \<and> map_of (setattr attrs ''_seqs'' (Suc s)) ''_seqs'' = Some (Suc s)
            \<and> (\<forall>a. a \<noteq> ''_seqs'' \<longrightarrow> map_of (setattr attrs ''_seqs'' (Suc s)) a = map_of attrs a)"
    if "s \<in> set subs" for s
  proof -
    from that obtain i where i: "i < length pieces" "s = length h + 2 * i"
      unfolding subs by auto
    from new i(1) have
      n1: "h' ! (length h + 2 * i) = Instance (setattr attrs ''_seqs'' (length h + 2 * i + 1))"
      and n2: "\<exists>c. h' ! (length h + 2 * i + 1) = Mapping c"
      by blast+
    have lt: "s < length h'" "Suc s < length h'" using i len by simp_all
    have "deref h' s = Some (Instance (setattr attrs ''_seqs'' (Suc s)))"
      using n1 lt(1) by (simp add: deref_def i(2))
    moreover have "\<exists>c. deref h' (Suc s) = Some (Mapping c)"
      using n2 lt(2) by (simp add: deref_def i(2))
    moreover have "length h \<le> s" using i(2) by simp
    ultimately show ?thesis by (simp add: setattr_lookup)
  qed
  from r old self d each show ?thesis by blast
qed

theorem rand_split_frame_witness:
  "rand_split gen_zero nat (\<lambda>ratio n r. int r) [2::nat, 1] 42 scenario_heap 0 =
     Inr ([3, 5],
          [Instance [(''path_prefix'', 1), (''_seqs'', 2)], Opaque (),
           Mapping [(''envA'', [''s1'', ''s2'']), (''envB'', [''s3''])],
           Instance [(''path_prefix'', 1), (''_seqs'', 4)],
           Mapping [(''envA'', [''s2'']), (''envB'', [''s3''])],
           Instance [(''path_prefix'', 1), (''_seqs'', 6)],
           Mapping [(''envA'', [''s1''])]])
   \<and> seqs_of scenario_heap 0 = Inr scenario_catalog
   \<and> deref scenario_heap 0 = Some (Instance [(''path_prefix'', 1), (''_seqs'', 2)])
   \<and> (\<exists>subs h'. rand_split gen_zero nat (\<lambda>ratio n r. int r) [2::nat, 1] 42 scenario_heap 0 = Inr (subs, h')
       \<and> seqs_of h' 0 = Inr scenario_catalog
       \<and> distinct (subs @ map Suc subs))"
proof -
  have a: "seqs_of scenario_heap 0 = Inr scenario_catalog" by code_simp
  have b: "deref scenario_heap 0 = Some (Instance [(''path_prefix'', 1), (''_seqs'', 2)])"
    by code_simp
  from rand_split_frame [OF a b, where gen = gen_zero and default_rng = nat
      and portion = "\<lambda>ratio n r. int r" and ratio = "[2::nat, 1]" and seed = 42]
  have "\<exists>subs h'. rand_split gen_zero nat (\<lambda>ratio n r. int r) [2::nat, 1] 42 scenario_heap 0 = Inr (subs, h')
       \<and> seqs_of h' 0 = Inr scenario_catalog
       \<and> distinct (subs @ map Suc subs)"
    by blast
  moreover have "rand_split gen_zero nat (\<lambda>ratio n r. int r) [2::nat, 1] 42 scenario_heap 0 =
     Inr ([3, 5],
          [Instance [(''path_prefix'', 1), (''_seqs'', 2)], Opaque (),
           Mapping [(''envA'', [''s1'', ''s2'']), (''envB'', [''s3''])],
           Instance [(''path_prefix'', 1), (''_seqs'', 4)],
           Mapping [(''envA'', [''s2'']), (''envB'', [''s3''])],
           Instance [(''path_prefix'', 1), (''_seqs'', 6)],
           Mapping [(''envA'', [''s1''])]])"
    by code_simp
  ultimately show ?thesis using a b by (intro conjI)
qed


























end
